theory Spec2Isabelle
  imports Main "HOL-Library.Word"
begin

section \<open>Data model\<close>

text \<open>
  The character graph in CSR form, as \<^verbatim>\<open>align.hpp\<close> reads it: vertex \<open>j\<close> carries the
  character \<open>vertex_label ! j\<close>; its in-neighbours are
  \<open>adjcny_in ! k\<close> for \<open>offsets_in ! j \<le> k < offsets_in ! (j + 1)\<close>, and likewise for the
  out-neighbours. Vertex ids, offsets and loop counters never go below zero in the code,
  so they are natural numbers here. Scores are \<^verbatim>\<open>int32_t\<close>: they are integers here, and
  every sum and difference the code forms in that type is reduced to the 32-bit range by
  \<open>i32\<close> below.
\<close>

record CSR_char_container =
  numVertices :: nat
  vertex_label :: "char list"
  offsets_in :: "nat list"
  adjcny_in :: "nat list"
  offsets_out :: "nat list"
  adjcny_out :: "nat list"

record Parameters =
  match :: int
  mismatch :: int
  ins :: int
  del :: int

record BestScoreInfo =
  score :: int
  refColumnStart :: nat
  refColumnEnd :: nat
  qryRowStart :: nat
  qryRowEnd :: nat
  strand :: char
  qryId :: nat
  cigar :: string
  refColumns :: "nat list"

text \<open>
  Modelled from the spec: the declaration of \<^verbatim>\<open>BestScoreInfo\<close> (base_types.hpp) is not
  among the sources, so the value of a freshly constructed record is fixed here. The
  pipeline writes every field before it reads it.
\<close>

definition BestScoreInfo_init :: BestScoreInfo where
  "BestScoreInfo_init =
     \<lparr>score = 0, refColumnStart = 0, refColumnEnd = 0, qryRowStart = 0, qryRowEnd = 0,
      strand = CHR ''+'', qryId = 0, cigar = [], refColumns = []\<rparr>"

datatype MODE = GLOBAL | LOCAL | SEMIGLOBAL

text \<open>
  The places where the code can stop: \<^verbatim>\<open>exit(1)\<close> on a bad argument, a failed
  \<^verbatim>\<open>assert\<close> (one constructor per assertion), the read of a variable that was never
  assigned, and an index or size outside the range where C++ defines the behaviour.
\<close>

datatype assertion =
    ReadSetNonEmpty
  | VectorSize
  | MirrorCellIsMatch
  | ReverseScoreOffByOne
  | RecomputedScore
  | RecomputedLocation
  | BacktraceInsertion
  | CigarScore

datatype error =
    InvalidArgument
  | AssertionFailed assertion
  | UninitializedRead
  | OutOfRange

text \<open>
  The value an \<^verbatim>\<open>int32_t\<close> holds after an addition or subtraction whose exact result is
  \<open>x\<close>: two's complement wrap-around.
\<close>

definition i32 :: "int \<Rightarrow> int" where
  "i32 x = (x + 2147483648) mod 4294967296 - 2147483648"

definition psgl_max :: "int \<Rightarrow> int \<Rightarrow> int" where
  "psgl_max a b = (if a > b then a else b)"

text \<open>The ring index \<^verbatim>\<open>i & 1\<close>; at \<open>i = -1\<close> it is 1, as in two's complement.\<close>

definition ring :: "int \<Rightarrow> nat" where
  "ring i = nat (i mod 2)"

section \<open>Sequence utilities\<close>

text \<open>
  Modelled from the spec: \<^verbatim>\<open>utils.hpp\<close> (\<^verbatim>\<open>psgl::seqUtils\<close>) is not among the sources.
  \<^verbatim>\<open>reverse\<close> reverses a string; \<^verbatim>\<open>reverseComplement\<close> reverses it and complements
  each nucleotide.
\<close>

definition reverse :: "string \<Rightarrow> string" where
  "reverse s = rev s"

fun complement :: "char \<Rightarrow> char" where
  "complement c =
     (if c = CHR ''A'' then CHR ''T''
      else if c = CHR ''T'' then CHR ''A''
      else if c = CHR ''C'' then CHR ''G''
      else if c = CHR ''G'' then CHR ''C''
      else c)"

definition reverseComplement :: "string \<Rightarrow> string" where
  "reverseComplement s = rev (map complement s)"

section \<open>Phase 1: forward sweep\<close>

record p1_state =
  matrix :: "int list list"
  bestScore :: int
  bestRow :: nat
  bestCol :: nat

text \<open>The body of the column loop of \<^verbatim>\<open>alignToDAGLocal_Phase1_scalar\<close>: one cell.\<close>

definition phase1_cell ::
  "CSR_char_container \<Rightarrow> Parameters \<Rightarrow> string \<Rightarrow> nat \<Rightarrow> nat \<Rightarrow> p1_state \<Rightarrow> p1_state" where
  "phase1_cell g p read i j st =
     (let curChar = vertex_label g ! j;
          matchScore = (if curChar = read ! i then match p else i32 (-1 * mismatch p));
          currentMax0 = psgl_max 0 matchScore;
          currentMax1 =
            fold (\<lambda>k cm.
                    psgl_max
                      (psgl_max cm (i32 (matrix st ! ring (int i - 1) ! (adjcny_in g ! k) + matchScore)))
                      (i32 (matrix st ! ring (int i) ! (adjcny_in g ! k) - del p)))
              [offsets_in g ! j ..< offsets_in g ! (j + 1)] currentMax0;
          currentMax = psgl_max currentMax1 (i32 (matrix st ! ring (int i - 1) ! j - ins p));
          matrix' = (matrix st)[ring (int i) := (matrix st ! ring (int i))[j := currentMax]];
          bestScore' = psgl_max (bestScore st) currentMax
      in if bestScore' = currentMax
         then st\<lparr>matrix := matrix', bestScore := currentMax, bestCol := j, bestRow := i\<rparr>
         else st\<lparr>matrix := matrix', bestScore := bestScore'\<rparr>)"

definition phase1_row ::
  "CSR_char_container \<Rightarrow> Parameters \<Rightarrow> string \<Rightarrow> nat \<Rightarrow> p1_state \<Rightarrow> p1_state" where
  "phase1_row g p read i st = fold (phase1_cell g p read i) [0 ..< numVertices g] st"

text \<open>
  The state after the first \<open>k\<close> rows of the sweep of one read. The two-row buffer is
  shared by the reads a thread handles: row 1 is cleared before each read, row 0 keeps
  what the previous read left there.
\<close>

definition phase1_rows ::
  "CSR_char_container \<Rightarrow> Parameters \<Rightarrow> string \<Rightarrow> int list list \<Rightarrow> nat \<Rightarrow> p1_state" where
  "phase1_rows g p read buf k =
     fold (phase1_row g p read) [0 ..< k]
       \<lparr>matrix = buf[1 := replicate (numVertices g) 0], bestScore = 0, bestRow = 0, bestCol = 0\<rparr>"

definition phase1_read ::
  "CSR_char_container \<Rightarrow> Parameters \<Rightarrow> string \<Rightarrow> int list list \<Rightarrow> p1_state" where
  "phase1_read g p read buf = phase1_rows g p read buf (length read)"

text \<open>
  The loop over the reads, in the order of one thread: the buffer is threaded through,
  and record \<open>readno\<close> receives score and end cell.
\<close>

definition phase1_readno ::
  "CSR_char_container \<Rightarrow> Parameters \<Rightarrow> string list \<Rightarrow> nat
     \<Rightarrow> int list list \<times> BestScoreInfo list \<Rightarrow> int list list \<times> BestScoreInfo list" where
  "phase1_readno g p readSet readno acc =
     (let st = phase1_read g p (readSet ! readno) (fst acc)
      in (matrix st,
          (snd acc)[readno := (snd acc ! readno)
             \<lparr>score := bestScore st, refColumnEnd := bestCol st, qryRowEnd := bestRow st\<rparr>]))"

definition alignToDAGLocal_Phase1_scalar ::
  "string list \<Rightarrow> CSR_char_container \<Rightarrow> Parameters \<Rightarrow> BestScoreInfo list
     \<Rightarrow> error + BestScoreInfo list" where
  "alignToDAGLocal_Phase1_scalar readSet g p bestScoreVector =
     (if length bestScoreVector \<noteq> length readSet then Inl (AssertionFailed VectorSize)
      else Inr (snd (fold (phase1_readno g p readSet) [0 ..< length readSet]
                       (replicate 2 (replicate (numVertices g) 0), bestScoreVector))))"

section \<open>Phase 1 in reverse: start coordinates\<close>

text \<open>
  The body of the column loop of \<^verbatim>\<open>alignToDAGLocal_Phase1_rev_scalar\<close>. \<open>read\<close> is
  the reversed read; \<open>info\<close> is the read's record, holding the end cell of the forward
  sweep. The best score is updated from the computed value; only then is the cell that
  mirrors the forward end cell checked and overwritten with \<open>match + 1\<close>.
\<close>

definition phase1_rev_cell ::
  "CSR_char_container \<Rightarrow> Parameters \<Rightarrow> string \<Rightarrow> BestScoreInfo \<Rightarrow> nat \<Rightarrow> nat \<Rightarrow> p1_state
     \<Rightarrow> error + p1_state" where
  "phase1_rev_cell g p read info i j st =
     (let readLength = length read;
          curChar = vertex_label g ! j;
          matchScore = (if curChar = read ! i then match p else i32 (-1 * mismatch p));
          currentMax0 = psgl_max 0 matchScore;
          currentMax1 =
            fold (\<lambda>k cm.
                    psgl_max
                      (psgl_max cm (i32 (matrix st ! ring (int i - 1) ! (adjcny_out g ! k) + matchScore)))
                      (i32 (matrix st ! ring (int i) ! (adjcny_out g ! k) - del p)))
              [offsets_out g ! j ..< offsets_out g ! (j + 1)] currentMax0;
          currentMax = psgl_max currentMax1 (i32 (matrix st ! ring (int i - 1) ! j - ins p));
          matrix' = (matrix st)[ring (int i) := (matrix st ! ring (int i))[j := currentMax]];
          bestScore' = psgl_max (bestScore st) currentMax;
          st' = (if bestScore' = currentMax
                 then st\<lparr>matrix := matrix', bestScore := currentMax, bestCol := j,
                         bestRow := readLength - 1 - i\<rparr>
                 else st\<lparr>matrix := matrix', bestScore := bestScore'\<rparr>)
      in if j = refColumnEnd info \<and> readLength - 1 - i = qryRowEnd info
         then (if currentMax = match p
               then Inr (st'\<lparr>matrix :=
                            matrix'[ring (int i) := (matrix' ! ring (int i))[j := i32 (match p + 1)]]\<rparr>)
               else Inl (AssertionFailed MirrorCellIsMatch))
         else Inr st')"

definition on_ok :: "('s \<Rightarrow> error + 's) \<Rightarrow> error + 's \<Rightarrow> error + 's" where
  "on_ok f r = (case r of Inl e \<Rightarrow> Inl e | Inr s \<Rightarrow> f s)"

text \<open>The columns run from \<open>numVertices - 1\<close> down to 0.\<close>

definition phase1_rev_row ::
  "CSR_char_container \<Rightarrow> Parameters \<Rightarrow> string \<Rightarrow> BestScoreInfo \<Rightarrow> nat \<Rightarrow> p1_state
     \<Rightarrow> error + p1_state" where
  "phase1_rev_row g p read info i st =
     fold (\<lambda>j. on_ok (phase1_rev_cell g p read info i j)) (rev [0 ..< numVertices g]) (Inr st)"

definition phase1_rev_rows ::
  "CSR_char_container \<Rightarrow> Parameters \<Rightarrow> string \<Rightarrow> BestScoreInfo \<Rightarrow> int list list \<Rightarrow> nat
     \<Rightarrow> error + p1_state" where
  "phase1_rev_rows g p read info buf k =
     fold (\<lambda>i. on_ok (phase1_rev_row g p read info i)) [0 ..< k]
       (Inr \<lparr>matrix = buf[1 := replicate (numVertices g) 0],
             bestScore = 0, bestRow = 0, bestCol = 0\<rparr>)"

text \<open>One read: the sweep, the check of the best score, the start cell.\<close>

definition phase1_rev_read ::
  "CSR_char_container \<Rightarrow> Parameters \<Rightarrow> string \<Rightarrow> BestScoreInfo \<Rightarrow> int list list
     \<Rightarrow> error + (int list list \<times> BestScoreInfo)" where
  "phase1_rev_read g p read info buf =
     (case phase1_rev_rows g p read info buf (length read) of
        Inl e \<Rightarrow> Inl e
      | Inr st \<Rightarrow>
          if score info = i32 (bestScore st - 1)
          then Inr (matrix st, info\<lparr>refColumnStart := bestCol st, qryRowStart := bestRow st\<rparr>)
          else Inl (AssertionFailed ReverseScoreOffByOne))"

definition phase1_rev_readno ::
  "CSR_char_container \<Rightarrow> Parameters \<Rightarrow> string list \<Rightarrow> nat
     \<Rightarrow> error + (int list list \<times> BestScoreInfo list)
     \<Rightarrow> error + (int list list \<times> BestScoreInfo list)" where
  "phase1_rev_readno g p readSet readno r =
     (case r of
        Inl e \<Rightarrow> Inl e
      | Inr acc \<Rightarrow>
          (case phase1_rev_read g p (readSet ! readno) (snd acc ! readno) (fst acc) of
             Inl e \<Rightarrow> Inl e
           | Inr res \<Rightarrow> Inr (fst res, (snd acc)[readno := snd res])))"

definition alignToDAGLocal_Phase1_rev_scalar ::
  "string list \<Rightarrow> CSR_char_container \<Rightarrow> Parameters \<Rightarrow> BestScoreInfo list
     \<Rightarrow> error + BestScoreInfo list" where
  "alignToDAGLocal_Phase1_rev_scalar readSet g p bestScoreVector =
     (if length bestScoreVector \<noteq> length readSet then Inl (AssertionFailed VectorSize)
      else (case fold (phase1_rev_readno g p readSet) [0 ..< length readSet]
                   (Inr (replicate 2 (replicate (numVertices g) 0), bestScoreVector)) of
              Inl e \<Rightarrow> Inl e
            | Inr acc \<Rightarrow> Inr (snd acc)))"

section \<open>CIGAR strings\<close>

text \<open>
  Modelled from the spec: \<^verbatim>\<open>cigarCompact\<close> and \<^verbatim>\<open>cigarScore\<close> (utils.hpp) are not
  among the sources. Compaction turns each maximal run of one operation into
  \<^verbatim>\<open><count><op>\<close>, the count in decimal; the score of a compacted string adds, for each
  group, the count times \<open>match\<close> for \<^verbatim>\<open>=\<close>, minus \<open>mismatch\<close> for \<^verbatim>\<open>X\<close>, minus \<open>ins\<close>
  for \<^verbatim>\<open>I\<close>, minus \<open>del\<close> for \<^verbatim>\<open>D\<close>.
\<close>

definition digit_char :: "nat \<Rightarrow> char" where
  "digit_char d = char_of (of_char CHR ''0'' + d)"

fun to_string :: "nat \<Rightarrow> string" where
  "to_string n = (if n < 10 then [digit_char n] else to_string (n div 10) @ [digit_char (n mod 10)])"

declare to_string.simps [simp del]

fun runs :: "string \<Rightarrow> (nat \<times> char) list" where
  "runs [] = []"
| "runs (c # cs) =
     (case runs cs of
        [] \<Rightarrow> [(1, c)]
      | (n, d) # rest \<Rightarrow> if c = d then (Suc n, d) # rest else (1, c) # (n, d) # rest)"

definition cigarCompact :: "string \<Rightarrow> string" where
  "cigarCompact cig = concat (map (\<lambda>(n, c). to_string n @ [c]) (runs cig))"

definition is_digit :: "char \<Rightarrow> bool" where
  "is_digit c = (of_char CHR ''0'' \<le> (of_char c :: nat) \<and> (of_char c :: nat) \<le> of_char CHR ''9'')"

definition op_score :: "Parameters \<Rightarrow> char \<Rightarrow> int" where
  "op_score p c =
     (if c = CHR ''='' then match p
      else if c = CHR ''X'' then - mismatch p
      else if c = CHR ''I'' then - ins p
      else if c = CHR ''D'' then - del p
      else 0)"

definition cigarScore_step :: "Parameters \<Rightarrow> char \<Rightarrow> nat \<times> int \<Rightarrow> nat \<times> int" where
  "cigarScore_step p c acc =
     (if is_digit c then (fst acc * 10 + (of_char c - of_char CHR ''0''), snd acc)
      else (0, snd acc + int (fst acc) * op_score p c))"

definition cigarScore :: "string \<Rightarrow> Parameters \<Rightarrow> int" where
  "cigarScore cig p = snd (fold (cigarScore_step p) cig (0, 0))"

section \<open>Phase 2: recomputation inside the rectangle\<close>

text \<open>
  The body of the column loop of phase 2.1. \<open>j0\<close> and \<open>i0\<close> are the first column and the
  first row of the rectangle; an in-edge from a column before \<open>j0\<close> is skipped. The
  vertical difference is stored in an \<^verbatim>\<open>int8_t\<close>.
\<close>

type_synonym int8_t = "8 word"

definition phase2_cell ::
  "CSR_char_container \<Rightarrow> Parameters \<Rightarrow> string \<Rightarrow> nat \<Rightarrow> nat \<Rightarrow> nat \<Rightarrow> nat
     \<Rightarrow> int list list \<times> int8_t list list \<Rightarrow> int list list \<times> int8_t list list" where
  "phase2_cell g p read j0 i0 i j acc =
     (let matrix = fst acc;
          completeMatrixLog = snd acc;
          curChar = vertex_label g ! (j + j0);
          fromInsertion = i32 (matrix ! ring (int i - 1) ! j - ins p);
          matchScore = (if curChar = read ! (i + i0) then match p else i32 (-1 * mismatch p));
          scan =
            fold (\<lambda>k fmd.
                    if adjcny_in g ! k \<ge> j0
                    then (psgl_max (fst fmd)
                            (i32 (matrix ! ring (int i - 1) ! (adjcny_in g ! k - j0) + matchScore)),
                          psgl_max (snd fmd)
                            (i32 (matrix ! ring (int i) ! (adjcny_in g ! k - j0) - del p)))
                    else fmd)
              [offsets_in g ! (j + j0) ..< offsets_in g ! (j + j0 + 1)] (matchScore, -1);
          fromMatch = fst scan;
          fromDeletion = snd scan;
          matrix' = matrix[ring (int i) := (matrix ! ring (int i))
                      [j := psgl_max (psgl_max fromInsertion fromMatch) (psgl_max fromDeletion 0)]];
          completeMatrixLog' = completeMatrixLog[i := (completeMatrixLog ! i)
                      [j := word_of_int (i32 (matrix' ! ring (int i) ! j - matrix' ! ring (int i - 1) ! j))]]
      in (matrix', completeMatrixLog'))"

definition phase2_row ::
  "CSR_char_container \<Rightarrow> Parameters \<Rightarrow> string \<Rightarrow> nat \<Rightarrow> nat \<Rightarrow> nat \<Rightarrow> nat
     \<Rightarrow> int list list \<times> int8_t list list \<Rightarrow> int list list \<times> int8_t list list" where
  "phase2_row g p read j0 i0 reducedWidth i acc =
     fold (phase2_cell g p read j0 i0 i) [0 ..< reducedWidth] acc"

definition phase2_rows ::
  "CSR_char_container \<Rightarrow> Parameters \<Rightarrow> string \<Rightarrow> nat \<Rightarrow> nat \<Rightarrow> nat \<Rightarrow> nat \<Rightarrow> nat
     \<Rightarrow> int list list \<times> int8_t list list" where
  "phase2_rows g p read j0 i0 reducedWidth reducedHeight k =
     fold (phase2_row g p read j0 i0 reducedWidth) [0 ..< k]
       (replicate 2 (replicate reducedWidth 0), replicate reducedHeight (replicate reducedWidth 0))"

text \<open>The last row of the recomputation and the matrix of vertical differences.\<close>

definition phase2_recompute ::
  "CSR_char_container \<Rightarrow> Parameters \<Rightarrow> string \<Rightarrow> nat \<Rightarrow> nat \<Rightarrow> nat \<Rightarrow> nat
     \<Rightarrow> int list \<times> int8_t list list" where
  "phase2_recompute g p read j0 i0 reducedWidth reducedHeight =
     (let res = phase2_rows g p read j0 i0 reducedWidth reducedHeight reducedHeight
      in (if reducedHeight = 0 then replicate reducedWidth 0
          else fst res ! ring (int reducedHeight - 1),
          snd res))"

definition max_element :: "int list \<Rightarrow> int" where
  "max_element xs = fold max (tl xs) (hd xs)"

section \<open>Phase 2: backtrace\<close>

record bt_state =
  col :: int
  row :: int
  currentRowScores :: "int list"
  cigar_ops :: string
  used_cols :: "nat list"

datatype 'a loop = Break 'a | Continue 'a

text \<open>
  The scan of the in-edges in the backtrace: the best match predecessor and the best
  deletion predecessor, each with its column. \<open>fromDeletionPos\<close> is declared without a
  value, so it is \<open>None\<close> until the scan assigns it.
\<close>

definition backtrace_scan ::
  "CSR_char_container \<Rightarrow> Parameters \<Rightarrow> nat \<Rightarrow> int list \<Rightarrow> int list \<Rightarrow> int \<Rightarrow> nat
     \<Rightarrow> int \<times> nat \<times> int \<times> nat option" where
  "backtrace_scan g p j0 aboveRowScores currentRow matchScore c =
     fold (\<lambda>k (fromMatch, fromMatchPos, fromDeletion, fromDeletionPos).
             if adjcny_in g ! k \<ge> j0
             then (let fromCol = adjcny_in g ! k - j0;
                       m = (if fromMatch < i32 (aboveRowScores ! fromCol + matchScore)
                            then (i32 (aboveRowScores ! fromCol + matchScore), fromCol)
                            else (fromMatch, fromMatchPos));
                       d = (if fromDeletion < i32 (currentRow ! fromCol - del p)
                            then (i32 (currentRow ! fromCol - del p), Some fromCol)
                            else (fromDeletion, fromDeletionPos))
                   in (fst m, snd m, fst d, snd d))
             else (fromMatch, fromMatchPos, fromDeletion, fromDeletionPos))
       [offsets_in g ! (c + j0) ..< offsets_in g ! (c + j0 + 1)]
       (matchScore, c, -1, None)"

text \<open>
  The block that evaluates the recurrence in the backtrace: which predecessor gives the
  score of the current cell, tried in the order match or mismatch, deletion, insertion.
  \<open>st1\<close> is the state with the current column already recorded, \<open>c\<close> the current
  column, \<open>scan\<close> the result of the scan of the in-edges.
\<close>

definition backtrace_choose ::
  "Parameters \<Rightarrow> bt_state \<Rightarrow> nat \<Rightarrow> int list \<Rightarrow> int \<Rightarrow> int \<times> nat \<times> int \<times> nat option
     \<Rightarrow> error + bt_state loop" where
  "backtrace_choose p st1 c aboveRowScores matchScore scan =
     (let fromInsertion = i32 (aboveRowScores ! c - ins p);
          fromMatch = fst scan;
          fromMatchPos = fst (snd scan);
          fromDeletion = fst (snd (snd scan));
          fromDeletionPos = snd (snd (snd scan))
      in if currentRowScores st1 ! c = fromMatch
         then (let st2 = st1\<lparr>cigar_ops := cigar_ops st1 @
                           [if matchScore = match p then CHR ''='' else CHR ''X'']\<rparr>
               in if fromMatchPos = c then Inr (Break st2)
                  else Inr (Continue (st2\<lparr>col := int fromMatchPos, row := row st1 - 1,
                                         currentRowScores := aboveRowScores\<rparr>)))
         else if currentRowScores st1 ! c = fromDeletion
         then (case fromDeletionPos of
                 None \<Rightarrow> Inl UninitializedRead
               | Some pos \<Rightarrow>
                   Inr (Continue (st1\<lparr>cigar_ops := cigar_ops st1 @ [CHR ''D''],
                                      col := int pos\<rparr>)))
         else if currentRowScores st1 ! c = fromInsertion
         then Inr (Continue (st1\<lparr>cigar_ops := cigar_ops st1 @ [CHR ''I''],
                                row := row st1 - 1, currentRowScores := aboveRowScores\<rparr>))
         else Inl (AssertionFailed BacktraceInsertion))"

text \<open>One iteration of the \<^verbatim>\<open>while\<close> loop of phase 2.2.\<close>

definition backtrace_step ::
  "CSR_char_container \<Rightarrow> Parameters \<Rightarrow> string \<Rightarrow> nat \<Rightarrow> nat \<Rightarrow> nat \<Rightarrow> int8_t list list
     \<Rightarrow> bt_state \<Rightarrow> error + bt_state loop" where
  "backtrace_step g p read j0 i0 reducedWidth completeMatrixLog st =
     (let c = nat (col st);
          r = nat (row st);
          st1 = st\<lparr>used_cols := used_cols st @ [c + j0]\<rparr>
      in if currentRowScores st ! c \<le> 0 then Inr (Break st1)
         else
           (let aboveRowScores =
                  map (\<lambda>i. i32 (currentRowScores st ! i - sint (completeMatrixLog ! r ! i)))
                    [0 ..< reducedWidth];
                curChar = vertex_label g ! (c + j0);
                matchScore = (if curChar = read ! (r + i0) then match p else i32 (-1 * mismatch p));
                scan = backtrace_scan g p j0 aboveRowScores (currentRowScores st) matchScore c
            in backtrace_choose p st1 c aboveRowScores matchScore scan))"

text \<open>
  The loop itself. Nothing in the loop bounds the number of iterations for an arbitrary
  graph, so the result is an option: \<open>None\<close> stands for a loop that never ends.
\<close>

partial_function (option) backtrace ::
  "CSR_char_container \<Rightarrow> Parameters \<Rightarrow> string \<Rightarrow> nat \<Rightarrow> nat \<Rightarrow> nat \<Rightarrow> int8_t list list
     \<Rightarrow> bt_state \<Rightarrow> (error + bt_state) option" where
  "backtrace g p read j0 i0 reducedWidth completeMatrixLog st =
     (if col st \<ge> 0 \<and> row st \<ge> 0
      then (case backtrace_step g p read j0 i0 reducedWidth completeMatrixLog st of
              Inl e \<Rightarrow> Some (Inl e)
            | Inr (Break st') \<Rightarrow> Some (Inr st')
            | Inr (Continue st') \<Rightarrow> backtrace g p read j0 i0 reducedWidth completeMatrixLog st')
      else Some (Inr st))"

declare backtrace.simps [code]

text \<open>
  Phase 2 for one read. \<open>reducedWidth\<close> and \<open>reducedHeight\<close> are \<^verbatim>\<open>size_t\<close>: an end
  that lies two or more before its start makes the size wrap around to a number of cells
  no vector can hold, and the run stops there. An end one before its start gives the size
  0. With \<open>reducedHeight = 0\<close> both loops are skipped, the final row stays all zero and
  the backtrace starts at row \<open>-1\<close>, so its loop body never runs. With
  \<open>reducedWidth = 0\<close> the final row is empty and \<^verbatim>\<open>max_element\<close> returns the end iterator,
  which the code dereferences.
\<close>

definition phase2_read ::
  "CSR_char_container \<Rightarrow> Parameters \<Rightarrow> string \<Rightarrow> BestScoreInfo \<Rightarrow> (error + BestScoreInfo) option" where
  "phase2_read g p read info =
     (let width = int (refColumnEnd info) - int (refColumnStart info) + 1;
          height = int (qryRowEnd info) - int (qryRowStart info) + 1
      in if width < 0 \<or> height < 0 then Some (Inl OutOfRange)
         else
           (let reducedWidth = nat width;
                j0 = refColumnStart info;
                reducedHeight = nat height;
                i0 = qryRowStart info;
                rc = phase2_recompute g p read j0 i0 reducedWidth reducedHeight;
                finalRow = fst rc;
                completeMatrixLog = snd rc
            in if finalRow = [] then Some (Inl OutOfRange)
               else
                 (let bestScoreReComputed = max_element finalRow
                  in if bestScoreReComputed \<noteq> score info
                     then Some (Inl (AssertionFailed RecomputedScore))
                     else if bestScoreReComputed \<noteq> finalRow ! (refColumnEnd info - j0)
                     then Some (Inl (AssertionFailed RecomputedLocation))
                     else
                       (case backtrace g p read j0 i0 reducedWidth completeMatrixLog
                               \<lparr>col = int reducedWidth - 1, row = int reducedHeight - 1,
                                currentRowScores = finalRow, cigar_ops = [], used_cols = []\<rparr> of
                          None \<Rightarrow> None
                        | Some (Inl e) \<Rightarrow> Some (Inl e)
                        | Some (Inr st) \<Rightarrow>
                            (let cig = cigarCompact (rev (cigar_ops st))
                             in if cigarScore cig p \<noteq> score info
                                then Some (Inl (AssertionFailed CigarScore))
                                else Some (Inr (info\<lparr>cigar := cig,
                                                     refColumns := rev (used_cols st)\<rparr>)))))))"

fun phase2_reads ::
  "CSR_char_container \<Rightarrow> Parameters \<Rightarrow> string list \<Rightarrow> BestScoreInfo list
     \<Rightarrow> (error + BestScoreInfo list) option" where
  "phase2_reads g p [] infos = Some (Inr [])"
| "phase2_reads g p (read # reads) infos =
     (case phase2_read g p read (hd infos) of
        None \<Rightarrow> None
      | Some (Inl e) \<Rightarrow> Some (Inl e)
      | Some (Inr info) \<Rightarrow>
          (case phase2_reads g p reads (tl infos) of
             None \<Rightarrow> None
           | Some (Inl e) \<Rightarrow> Some (Inl e)
           | Some (Inr rest) \<Rightarrow> Some (Inr (info # rest))))"

definition alignToDAGLocal_Phase2 ::
  "string list \<Rightarrow> CSR_char_container \<Rightarrow> Parameters \<Rightarrow> BestScoreInfo list
     \<Rightarrow> (error + BestScoreInfo list) option" where
  "alignToDAGLocal_Phase2 readSet g p bestScoreVector =
     (if length bestScoreVector \<noteq> length readSet then Some (Inl (AssertionFailed VectorSize))
      else phase2_reads g p readSet bestScoreVector)"

section \<open>The pipeline\<close>

text \<open>
  \<^verbatim>\<open>alignToDAGLocal\<close>. The reverse complement of each read is computed and left unused:
  the line that would add it to the reads of phase 1 is commented out in the source, and
  the read itself is added a second time. The orientation is chosen by a strict
  comparison of the two scores; both branches set the strand to \<^verbatim>\<open>+\<close>.
\<close>

definition readSet_P1_of :: "string list \<Rightarrow> string list" where
  "readSet_P1_of readSet =
     concat (map (\<lambda>read. (let read_reverse = reverseComplement read in [read, read])) readSet)"

definition select_strand ::
  "string list \<Rightarrow> BestScoreInfo list \<Rightarrow> nat \<Rightarrow> BestScoreInfo \<times> string" where
  "select_strand readSet_P1 bestScoreVector_P1 readno =
     (if score (bestScoreVector_P1 ! (2 * readno)) > score (bestScoreVector_P1 ! (2 * readno + 1))
      then ((bestScoreVector_P1 ! (2 * readno))\<lparr>strand := CHR ''+'', qryId := readno\<rparr>,
            reverse (readSet_P1 ! (2 * readno)))
      else ((bestScoreVector_P1 ! (2 * readno + 1))\<lparr>strand := CHR ''+'', qryId := readno\<rparr>,
            reverse (readSet_P1 ! (2 * readno + 1))))"

definition readSet_P2_of :: "string list \<Rightarrow> BestScoreInfo list \<Rightarrow> nat \<Rightarrow> string" where
  "readSet_P2_of readSet_P1 bestScoreVector_P1 readno =
     (if score (bestScoreVector_P1 ! (2 * readno)) > score (bestScoreVector_P1 ! (2 * readno + 1))
      then readSet_P1 ! (2 * readno)
      else readSet_P1 ! (2 * readno + 1))"

definition alignToDAGLocal ::
  "string list \<Rightarrow> CSR_char_container \<Rightarrow> Parameters \<Rightarrow> (error + BestScoreInfo list) option" where
  "alignToDAGLocal readSet g p =
     (if length readSet = 0 then Some (Inl (AssertionFailed ReadSetNonEmpty))
      else
        (let readSet_P1 = readSet_P1_of readSet;
             bestScoreVector_P1_init = replicate (2 * length readSet) BestScoreInfo_init
         in case alignToDAGLocal_Phase1_scalar readSet_P1 g p bestScoreVector_P1_init of
              Inl e \<Rightarrow> Some (Inl e)
            | Inr bestScoreVector_P1 \<Rightarrow>
                (let sel = map (select_strand readSet_P1 bestScoreVector_P1) [0 ..< length readSet];
                     outputBestScoreVector = map fst sel;
                     readSet_P1_R = map snd sel
                 in case alignToDAGLocal_Phase1_rev_scalar readSet_P1_R g p outputBestScoreVector of
                      Inl e \<Rightarrow> Some (Inl e)
                    | Inr outputBestScoreVector' \<Rightarrow>
                        alignToDAGLocal_Phase2
                          (map (readSet_P2_of readSet_P1 bestScoreVector_P1) [0 ..< length readSet])
                          g p outputBestScoreVector')))"

text \<open>\<^verbatim>\<open>alignToDAG\<close> on parsed reads: any mode but \<^verbatim>\<open>LOCAL\<close> ends the program.\<close>

definition alignToDAG ::
  "string list \<Rightarrow> CSR_char_container \<Rightarrow> Parameters \<Rightarrow> MODE \<Rightarrow> (error + BestScoreInfo list) option" where
  "alignToDAG reads g p mode =
     (case mode of
        LOCAL \<Rightarrow> alignToDAGLocal reads g p
      | _ \<Rightarrow> Some (Inl InvalidArgument))"

section \<open>The forward table\<close>

text \<open>
  The table of the recurrence, with the arithmetic of the code: each sum and difference
  is taken in \<^verbatim>\<open>int32_t\<close>. \<open>nb\<close> gives the predecessors of a column, \<open>rk\<close> the order in
  which the columns of a row are written (a predecessor written later in the row is not
  read in the same row), \<open>ov\<close> the cells whose value is overwritten.
\<close>

definition in_nbrs :: "CSR_char_container \<Rightarrow> nat \<Rightarrow> nat list" where
  "in_nbrs g j = map (\<lambda>k. adjcny_in g ! k) [offsets_in g ! j ..< offsets_in g ! (j + 1)]"

definition out_nbrs :: "CSR_char_container \<Rightarrow> nat \<Rightarrow> nat list" where
  "out_nbrs g j = map (\<lambda>k. adjcny_out g ! k) [offsets_out g ! j ..< offsets_out g ! (j + 1)]"

definition matchScore_at :: "CSR_char_container \<Rightarrow> Parameters \<Rightarrow> string \<Rightarrow> nat \<Rightarrow> nat \<Rightarrow> int" where
  "matchScore_at g p read i j = (if vertex_label g ! j = read ! i then match p else i32 (-1 * mismatch p))"

function H ::
  "(nat \<Rightarrow> nat list) \<Rightarrow> (nat \<Rightarrow> nat) \<Rightarrow> (nat \<Rightarrow> nat \<Rightarrow> int option) \<Rightarrow> Parameters
     \<Rightarrow> (nat \<Rightarrow> nat \<Rightarrow> int) \<Rightarrow> nat \<Rightarrow> nat \<Rightarrow> int" where
  "H nb rk ov p ms i j =
     (case ov i j of
        Some v \<Rightarrow> v
      | None \<Rightarrow>
          Max (set ([0, ms i j]
                 @ map (\<lambda>u. i32 ((if i = 0 then 0 else H nb rk ov p ms (i - 1) u) + ms i j)) (nb j)
                 @ map (\<lambda>u. i32 (H nb rk ov p ms i u - del p)) (filter (\<lambda>u. rk u < rk j) (nb j))
                 @ [i32 ((if i = 0 then 0 else H nb rk ov p ms (i - 1) j) - ins p)])))"
  by pat_completeness auto

termination
  by (relation "measures [\<lambda>(nb, rk, ov, p, ms, i, j). i, \<lambda>(nb, rk, ov, p, ms, i, j). rk j]") auto

declare H.simps [simp del]

definition no_ov :: "nat \<Rightarrow> nat \<Rightarrow> int option" where "no_ov i j = None"

definition Hf :: "CSR_char_container \<Rightarrow> Parameters \<Rightarrow> string \<Rightarrow> nat \<Rightarrow> nat \<Rightarrow> int" where
  "Hf g p read = H (in_nbrs g) id no_ov p (matchScore_at g p read)"

definition Hf_above :: "CSR_char_container \<Rightarrow> Parameters \<Rightarrow> string \<Rightarrow> nat \<Rightarrow> nat \<Rightarrow> int" where
  "Hf_above g p read i j = (if i = 0 then 0 else Hf g p read (i - 1) j)"

definition topo_in :: "CSR_char_container \<Rightarrow> bool" where
  "topo_in g \<longleftrightarrow> (\<forall>j \<in> {0 ..< numVertices g}. \<forall>u \<in> set (in_nbrs g j). u < j)"

definition dp_cell :: "Parameters \<Rightarrow> int \<Rightarrow> nat list \<Rightarrow> int list \<Rightarrow> int list \<Rightarrow> nat \<Rightarrow> int" where
  "dp_cell p ms nbrs prev cur j =
     max (fold (\<lambda>u cm. max (max cm (i32 (prev ! u + ms))) (i32 (cur ! u - del p))) nbrs (max 0 ms))
         (i32 (prev ! j - ins p))"

definition scanned :: "nat \<Rightarrow> nat \<Rightarrow> nat \<Rightarrow> nat \<Rightarrow> nat \<Rightarrow> bool" where
  "scanned n i j i' j' \<longleftrightarrow> j' < n \<and> (i' < i \<or> (i' = i \<and> j' < j))"

definition best_inv ::
  "nat \<Rightarrow> (nat \<Rightarrow> nat \<Rightarrow> int) \<Rightarrow> nat \<Rightarrow> nat \<Rightarrow> int \<Rightarrow> nat \<Rightarrow> nat \<Rightarrow> bool" where
  "best_inv n f i j bs br bc \<longleftrightarrow>
     0 \<le> bs
     \<and> (\<forall>i' j'. scanned n i j i' j' \<longrightarrow>
           f i' j' \<le> bs \<and> (f i' j' = bs \<longrightarrow> i' < br \<or> (i' = br \<and> j' \<le> bc)))
     \<and> (if \<exists>i' j'. scanned n i j i' j'
        then scanned n i j br bc \<and> f br bc = bs
        else bs = 0 \<and> br = 0 \<and> bc = 0)"

definition p1_mat ::
  "CSR_char_container \<Rightarrow> Parameters \<Rightarrow> string \<Rightarrow> nat \<Rightarrow> nat \<Rightarrow> int list list \<Rightarrow> bool" where
  "p1_mat g p read i j M \<longleftrightarrow>
     length M = 2 \<and> length (M ! 0) = numVertices g \<and> length (M ! 1) = numVertices g
     \<and> (\<forall>u < numVertices g. M ! ring (int i - 1) ! u = Hf_above g p read i u)
     \<and> (\<forall>u < j. M ! ring (int i) ! u = Hf g p read i u)"

definition p1_inv ::
  "CSR_char_container \<Rightarrow> Parameters \<Rightarrow> string \<Rightarrow> nat \<Rightarrow> nat \<Rightarrow> p1_state \<Rightarrow> bool" where
  "p1_inv g p read i j st \<longleftrightarrow>
     p1_mat g p read i j (matrix st)
     \<and> best_inv (numVertices g) (Hf g p read) i j (bestScore st) (bestRow st) (bestCol st)"

definition buffer_ok :: "CSR_char_container \<Rightarrow> int list list \<Rightarrow> bool" where
  "buffer_ok g buf \<longleftrightarrow> length buf = 2 \<and> (\<forall>r \<in> set buf. length r = numVertices g)"

definition sweep_cell ::
  "CSR_char_container \<Rightarrow> Parameters \<Rightarrow> string \<Rightarrow> int list list \<Rightarrow> nat \<Rightarrow> nat \<Rightarrow> int" where
  "sweep_cell g p read buf i j = matrix (phase1_rows g p read buf (Suc i)) ! ring (int i) ! j"

definition sweep_above ::
  "CSR_char_container \<Rightarrow> Parameters \<Rightarrow> string \<Rightarrow> int list list \<Rightarrow> nat \<Rightarrow> nat \<Rightarrow> int" where
  "sweep_above g p read buf i j = (if i = 0 then 0 else sweep_cell g p read buf (i - 1) j)"

definition sweep_cells ::
  "CSR_char_container \<Rightarrow> Parameters \<Rightarrow> string \<Rightarrow> int list list \<Rightarrow> int set" where
  "sweep_cells g p read buf =
     (\<lambda>(i, j). sweep_cell g p read buf i j) ` ({0 ..< length read} \<times> {0 ..< numVertices g})"

definition fresh_buffer :: "CSR_char_container \<Rightarrow> int list list" where
  "fresh_buffer g = replicate 2 (replicate (numVertices g) 0)"

text \<open>
  The scoring parameters are not negative and no score of a read of \<open>m\<close> characters leaves
  the range of \<^verbatim>\<open>int32_t\<close>: a score is at most \<open>m\<close> times the match reward, and a sum is at
  least minus one penalty.
\<close>

definition fits32 :: "Parameters \<Rightarrow> nat \<Rightarrow> bool" where
  "fits32 p m \<longleftrightarrow>
     0 \<le> match p \<and> 0 \<le> mismatch p \<and> 0 \<le> ins p \<and> 0 \<le> del p
     \<and> int m * match p < 2147483648
     \<and> mismatch p < 2147483648 \<and> ins p < 2147483648 \<and> del p < 2147483648"

section \<open>Properties carried through the pipeline\<close>

definition not_invalid :: "error + 'a \<Rightarrow> bool" where
  "not_invalid r \<longleftrightarrow> r \<noteq> Inl InvalidArgument"

definition plus_strands :: "nat \<Rightarrow> BestScoreInfo list \<Rightarrow> bool" where
  "plus_strands n bsv \<longleftrightarrow> length bsv = n \<and> (\<forall>b \<in> set bsv. strand b = CHR ''+'')"

definition ok_plus_strands :: "nat \<Rightarrow> error + (int list list \<times> BestScoreInfo list) \<Rightarrow> bool" where
  "ok_plus_strands n r \<longleftrightarrow> (case r of Inl e \<Rightarrow> True | Inr acc \<Rightarrow> plus_strands n (snd acc))"

definition bt_cols_ok :: "nat \<Rightarrow> nat \<Rightarrow> bt_state \<Rightarrow> bool" where
  "bt_cols_ok j0 w st \<longleftrightarrow>
     col st < int w \<and> sorted (rev (used_cols st))
     \<and> (\<forall>x \<in> set (used_cols st). j0 \<le> x \<and> x < j0 + w \<and> int j0 + col st \<le> int x)"

definition cols_in_band :: "nat \<Rightarrow> nat \<Rightarrow> nat list \<Rightarrow> bool" where
  "cols_in_band j0 w cols \<longleftrightarrow> sorted (rev cols) \<and> (\<forall>x \<in> set cols. j0 \<le> x \<and> x < j0 + w)"

definition scores_kept :: "BestScoreInfo list \<Rightarrow> error + (int list list \<times> BestScoreInfo list) \<Rightarrow> bool" where
  "scores_kept bsv r \<longleftrightarrow>
     (case r of Inl e \<Rightarrow> True
      | Inr acc \<Rightarrow> length (snd acc) = length bsv
                   \<and> (\<forall>i < length bsv. score (snd acc ! i) = score (bsv ! i)))"

definition p1_scores ::
  "CSR_char_container \<Rightarrow> Parameters \<Rightarrow> string list \<Rightarrow> nat \<Rightarrow> int list list \<times> BestScoreInfo list \<Rightarrow> bool" where
  "p1_scores g p rs k acc \<longleftrightarrow>
     buffer_ok g (fst acc) \<and> length (snd acc) = length rs
     \<and> (\<forall>i < k. score (snd acc ! i) = bestScore (phase1_read g p (rs ! i) (fresh_buffer g)))"















section \<open>Example inputs\<close>

text \<open>
  The graph with the single vertex \<open>A\<close>, the chain \<open>A \<rightarrow> C \<rightarrow> G \<rightarrow> T \<rightarrow> T\<close>, and the scoring
  scheme with all four parameters 1.
\<close>

definition graph_A :: CSR_char_container where
  "graph_A =
     \<lparr>numVertices = 1, vertex_label = ''A'', offsets_in = [0, 0], adjcny_in = [],
      offsets_out = [0, 0], adjcny_out = []\<rparr>"

definition graph_ACGTT :: CSR_char_container where
  "graph_ACGTT =
     \<lparr>numVertices = 5, vertex_label = ''ACGTT'', offsets_in = [0, 0, 1, 2, 3, 4],
      adjcny_in = [0, 1, 2, 3], offsets_out = [0, 1, 2, 3, 4, 4], adjcny_out = [1, 2, 3, 4]\<rparr>"

definition unit_scores :: Parameters where
  "unit_scores = \<lparr>match = 1, mismatch = 1, ins = 1, del = 1\<rparr>"

text \<open>The chain \<open>A \<rightarrow> C\<close> and a scoring scheme with match reward \<open>2\<^sup>3\<^sup>0\<close>.\<close>

definition graph_AC :: CSR_char_container where
  "graph_AC =
     \<lparr>numVertices = 2, vertex_label = ''AC'', offsets_in = [0, 0, 1], adjcny_in = [0],
      offsets_out = [0, 1, 1], adjcny_out = [1]\<rparr>"

definition big_match :: Parameters where
  "big_match = \<lparr>match = 1073741824, mismatch = 1, ins = 1, del = 1\<rparr>"



section \<open>Loops as folds\<close>

lemma fold_preserves:
  "P s \<Longrightarrow> (\<And>k s. P s \<Longrightarrow> P (f k s)) \<Longrightarrow> P (fold f ks s)"
  by (induction ks arbitrary: s) auto

lemma fold_preserves_mem:
  "P s \<Longrightarrow> (\<And>k s. k \<in> set ks \<Longrightarrow> P s \<Longrightarrow> P (f k s)) \<Longrightarrow> P (fold f ks s)"
  by (induction ks arbitrary: s) auto

section \<open>Phase 1 computes the recurrence\<close>

lemma psgl_max_eq: "psgl_max a b = max a b"
  by (simp add: psgl_max_def max_def)

lemma fold_max2_le:
  "fold (\<lambda>k cm. max (max cm (a k)) (b k)) ks (c::int) \<le> v \<longleftrightarrow>
     c \<le> v \<and> (\<forall>k \<in> set ks. a k \<le> v \<and> b k \<le> v)"
  by (induction ks arbitrary: c) auto

lemma fold_max2:
  "fold (\<lambda>k cm. max (max cm (a k)) (b k)) ks (c::int) = Max (set (c # map a ks @ map b ks))"
proof -
  have "\<And>v. (fold (\<lambda>k cm. max (max cm (a k)) (b k)) ks c \<le> v)
           = (Max (set (c # map a ks @ map b ks)) \<le> v)"
    by (subst Max_le_iff) (auto simp: fold_max2_le)
  then show ?thesis
    by (meson order_refl order_antisym)
qed

lemma ring_int: "ring (int i) = i mod 2"
  unfolding ring_def by (simp add: nat_mod_distrib)

lemma ring_int_pred: "ring (int i - 1) = Suc i mod 2"
proof -
  have "(int i - 1) mod 2 = int (Suc i mod 2)"
    by (simp add: zmod_int) presburger
  then show ?thesis by (simp add: ring_def)
qed

lemma ring_simps:
  "ring (int i) < 2" "ring (int i - 1) < 2" "ring (int i) \<noteq> ring (int i - 1)"
  "ring (int (Suc i) - 1) = ring (int i)" "ring (int (Suc i)) = ring (int i - 1)"
  by (simp_all add: ring_int ring_int_pred del: of_nat_Suc) presburger+

lemma eq_by_upper_bounds: "(\<And>v::int. x \<le> v \<longleftrightarrow> y \<le> v) \<Longrightarrow> x = y"
  by (meson order_refl order_antisym)

lemma dp_cell_le:
  "dp_cell p ms nbrs prev cur j \<le> v \<longleftrightarrow>
     0 \<le> v \<and> ms \<le> v
       \<and> (\<forall>u \<in> set nbrs. i32 (prev ! u + ms) \<le> v \<and> i32 (cur ! u - del p) \<le> v)
       \<and> i32 (prev ! j - ins p) \<le> v"
  by (auto simp: dp_cell_def fold_max2_le)

lemma H_le:
  "ov i j = None \<Longrightarrow>
   H nb rk ov p ms i j \<le> v \<longleftrightarrow>
     0 \<le> v \<and> ms i j \<le> v
     \<and> (\<forall>u \<in> set (nb j). i32 ((if i = 0 then 0 else H nb rk ov p ms (i - 1) u) + ms i j) \<le> v)
     \<and> (\<forall>u \<in> set (nb j). rk u < rk j \<longrightarrow> i32 (H nb rk ov p ms i u - del p) \<le> v)
     \<and> i32 ((if i = 0 then 0 else H nb rk ov p ms (i - 1) j) - ins p) \<le> v"
  by (subst H.simps) (auto simp: Max_le_iff)

lemma phase1_cell_eq:
  "phase1_cell g p read i j st =
     (let v = dp_cell p (matchScore_at g p read i j) (in_nbrs g j)
                (matrix st ! ring (int i - 1)) (matrix st ! ring (int i)) j
      in st\<lparr>matrix := (matrix st)[ring (int i) := (matrix st ! ring (int i))[j := v]],
            bestScore := max (bestScore st) v,
            bestCol := (if bestScore st \<le> v then j else bestCol st),
            bestRow := (if bestScore st \<le> v then i else bestRow st)\<rparr>)"
  by (auto simp: phase1_cell_def dp_cell_def Let_def psgl_max_eq in_nbrs_def fold_map comp_def
      matchScore_at_def max_def)

lemma dp_cell_Hf:
  assumes "\<forall>u \<in> set (in_nbrs g j). u < j"
    and "\<forall>u \<in> set (in_nbrs g j). prev ! u = Hf_above g p read i u"
    and "prev ! j = Hf_above g p read i j"
    and "\<forall>u < j. cur ! u = Hf g p read i u"
  shows "dp_cell p (matchScore_at g p read i j) (in_nbrs g j) prev cur j = Hf g p read i j"
  using assms
  by (intro eq_by_upper_bounds)
     (auto simp: dp_cell_le Hf_def H_le no_ov_def Hf_above_def)

lemma fold_upt_invariant:
  assumes "P 0 s" and "\<And>k s. k < n \<Longrightarrow> P k s \<Longrightarrow> P (Suc k) (f k s)"
  shows "P n (fold f [0 ..< n] s)"
  using assms
proof (induction n)
  case 0
  then show ?case by simp
next
  case (Suc n)
  then have "P n (fold f [0 ..< n] s)" by simp
  with Suc.prems(2) [of n] show ?case by simp
qed

lemma H_nonneg: "ov i j = None \<Longrightarrow> 0 \<le> H nb rk ov p ms i j"
  using H_le [of ov i j nb rk p ms "H nb rk ov p ms i j"] by simp

lemma Hf_nonneg: "0 \<le> Hf g p read i j"
  by (simp add: Hf_def H_nonneg no_ov_def)

lemma scanned_Suc: "j < n \<Longrightarrow> scanned n i (Suc j) i' j' \<longleftrightarrow> scanned n i j i' j' \<or> (i' = i \<and> j' = j)"
  by (auto simp: scanned_def)

lemma scanned_next_row: "scanned n (Suc i) 0 i' j' \<longleftrightarrow> scanned n i n i' j'"
  by (auto simp: scanned_def)

lemma best_inv_step:
  assumes inv: "best_inv n f i j bs br bc" and j: "j < n" and nonneg: "0 \<le> f i j"
  shows "best_inv n f i (Suc j) (max bs (f i j))
           (if bs \<le> f i j then i else br) (if bs \<le> f i j then j else bc)"
proof (cases "bs \<le> f i j")
  case True
  have pos: "\<And>i' j'. scanned n i j i' j' \<Longrightarrow> i' < i \<or> (i' = i \<and> j' \<le> j)"
    by (auto simp: scanned_def)
  have le: "\<And>i' j'. scanned n i j i' j' \<Longrightarrow> f i' j' \<le> f i j"
    using inv True unfolding best_inv_def by force
  have here: "scanned n i (Suc j) i j"
    using j by (simp add: scanned_def)
  from True nonneg pos le here show ?thesis
    unfolding best_inv_def scanned_Suc [OF j]
    by (auto simp: max_def)
next
  case False
  then have ex: "\<exists>i' j'. scanned n i j i' j'"
    using inv nonneg unfolding best_inv_def by (auto split: if_splits)
  have old: "\<And>i' j'. scanned n i j i' j' \<Longrightarrow>
               f i' j' \<le> bs \<and> (f i' j' = bs \<longrightarrow> i' < br \<or> (i' = br \<and> j' \<le> bc))"
    using inv unfolding best_inv_def by blast
  have best: "scanned n i j br bc \<and> f br bc = bs" and bs: "0 \<le> bs"
    using inv ex unfolding best_inv_def by auto
  from False old best bs show ?thesis
    unfolding best_inv_def scanned_Suc [OF j]
    by (auto simp: max_def)
qed

lemma best_inv_next_row: "best_inv n f i n bs br bc \<Longrightarrow> best_inv n f (Suc i) 0 bs br bc"
  by (simp add: best_inv_def scanned_next_row)

lemma buffer_ok_rows:
  "buffer_ok g buf \<Longrightarrow> length buf = 2 \<and> length (buf ! 0) = numVertices g \<and> length (buf ! 1) = numVertices g"
  by (simp add: buffer_ok_def)

lemma list2_rows:
  assumes "length (M :: int list list) = 2"
  shows "length (M[r := (M ! r)[j := v]]) = 2"
    and "r < 2 \<Longrightarrow> length (M[r := (M ! r)[j := v]] ! 0) = length (M ! 0)"
    and "r < 2 \<Longrightarrow> length (M[r := (M ! r)[j := v]] ! 1) = length (M ! 1)"
  using assms by (auto simp: nth_list_update)

lemma p1_mat_step:
  assumes mat: "p1_mat g p read i j M" and j: "j < numVertices g"
    and topo: "\<forall>u \<in> set (in_nbrs g j). u < j"
  defines "v \<equiv> dp_cell p (matchScore_at g p read i j) (in_nbrs g j)
                  (M ! ring (int i - 1)) (M ! ring (int i)) j"
  shows "v = Hf g p read i j"
    and "p1_mat g p read i (Suc j) (M[ring (int i) := (M ! ring (int i))[j := v]])"
proof -
  from mat have len: "length M = 2" "length (M ! 0) = numVertices g" "length (M ! 1) = numVertices g"
    and prev: "\<forall>u < numVertices g. M ! ring (int i - 1) ! u = Hf_above g p read i u"
    and cur: "\<forall>u < j. M ! ring (int i) ! u = Hf g p read i u"
    by (simp_all add: p1_mat_def)
  have "\<forall>u \<in> set (in_nbrs g j). M ! ring (int i - 1) ! u = Hf_above g p read i u"
    using topo prev j by auto
  then show v: "v = Hf g p read i j"
    unfolding v_def using topo prev cur j by (intro dp_cell_Hf) auto
  have rlen: "length (M ! ring (int i)) = numVertices g"
    using len ring_simps(1) [of i] by (cases "ring (int i)") (auto simp: less_Suc_eq)
  have r: "ring (int i) < length M" "ring (int i - 1) < length M"
    using len ring_simps(1,2) [of i] by simp_all
  have "\<forall>u < Suc j. (M ! ring (int i))[j := v] ! u = Hf g p read i u"
    using cur v j rlen by (auto simp: nth_list_update less_Suc_eq)
  moreover have "M[ring (int i) := (M ! ring (int i))[j := v]] ! ring (int i - 1) = M ! ring (int i - 1)"
    using ring_simps(3) [of i] by simp
  moreover have "M[ring (int i) := (M ! ring (int i))[j := v]] ! ring (int i) = (M ! ring (int i))[j := v]"
    using r by simp
  ultimately show "p1_mat g p read i (Suc j) (M[ring (int i) := (M ! ring (int i))[j := v]])"
    unfolding p1_mat_def using prev len list2_rows [OF len(1), of "ring (int i)" j v] ring_simps(1) [of i]
    by simp
qed

lemma p1_mat_next_row:
  "p1_mat g p read i (numVertices g) M \<Longrightarrow> p1_mat g p read (Suc i) 0 M"
  by (simp add: p1_mat_def ring_simps Hf_above_def del: of_nat_Suc)

lemma p1_mat_init:
  "buffer_ok g buf \<Longrightarrow> p1_mat g p read 0 0 (buf[1 := replicate (numVertices g) 0])"
  by (auto simp: p1_mat_def buffer_ok_def ring_def Hf_above_def nth_list_update)

lemma best_inv_init: "best_inv n f 0 0 0 0 0"
  by (simp add: best_inv_def scanned_def)

lemma p1_inv_step:
  assumes "p1_inv g p read i j st" "j < numVertices g" "\<forall>u \<in> set (in_nbrs g j). u < j"
  shows "p1_inv g p read i (Suc j) (phase1_cell g p read i j st)"
proof -
  let ?v = "dp_cell p (matchScore_at g p read i j) (in_nbrs g j)
              (matrix st ! ring (int i - 1)) (matrix st ! ring (int i)) j"
  from assms have mat: "p1_mat g p read i j (matrix st)"
    and best: "best_inv (numVertices g) (Hf g p read) i j (bestScore st) (bestRow st) (bestCol st)"
    by (simp_all add: p1_inv_def)
  note step = p1_mat_step [OF mat assms(2,3)]
  have "best_inv (numVertices g) (Hf g p read) i (Suc j) (max (bestScore st) ?v)
          (if bestScore st \<le> ?v then i else bestRow st) (if bestScore st \<le> ?v then j else bestCol st)"
    unfolding step(1) by (rule best_inv_step [OF best assms(2) Hf_nonneg])
  with step(2) show ?thesis
    by (simp add: p1_inv_def phase1_cell_eq Let_def)
qed

lemma p1_inv_row:
  assumes "p1_inv g p read i 0 st" "topo_in g"
  shows "p1_inv g p read (Suc i) 0 (phase1_row g p read i st)"
proof -
  have "p1_inv g p read i (numVertices g) (fold (phase1_cell g p read i) [0 ..< numVertices g] st)"
    using assms
    by (intro fold_upt_invariant [where P = "p1_inv g p read i"]) (auto intro: p1_inv_step simp: topo_in_def)
  then show ?thesis
    by (simp add: p1_inv_def phase1_row_def p1_mat_next_row best_inv_next_row)
qed

lemma p1_inv_init:
  "buffer_ok g buf \<Longrightarrow>
   p1_inv g p read 0 0
     \<lparr>matrix = buf[1 := replicate (numVertices g) 0], bestScore = 0, bestRow = 0, bestCol = 0\<rparr>"
  using p1_mat_init [of g buf p read] by (simp add: p1_inv_def best_inv_init)

lemma p1_inv_rows:
  assumes "buffer_ok g buf" "topo_in g"
  shows "p1_inv g p read k 0 (phase1_rows g p read buf k)"
  unfolding phase1_rows_def
proof (rule fold_upt_invariant [where P = "\<lambda>i. p1_inv g p read i 0"])
  show "p1_inv g p read 0 0
     \<lparr>matrix = buf[1 := replicate (numVertices g) 0], bestScore = 0, bestRow = 0, bestCol = 0\<rparr>"
    by (rule p1_inv_init [OF assms(1)])
next
  fix i s
  assume "p1_inv g p read i 0 s"
  then show "p1_inv g p read (Suc i) 0 (phase1_row g p read i s)"
    by (rule p1_inv_row [OF _ assms(2)])
qed

lemma sweep_cell_Hf:
  assumes "topo_in g" "buffer_ok g buf" "j < numVertices g"
  shows "sweep_cell g p read buf i j = Hf g p read i j"
proof -
  have "p1_mat g p read (Suc i) 0 (matrix (phase1_rows g p read buf (Suc i)))"
    using p1_inv_rows [OF assms(2,1), of p read "Suc i"] by (simp add: p1_inv_def)
  then have "matrix (phase1_rows g p read buf (Suc i)) ! ring (int (Suc i) - 1) ! j
               = Hf_above g p read (Suc i) j"
    using assms(3) unfolding p1_mat_def by blast
  then show ?thesis
    by (simp add: sweep_cell_def ring_simps(4) Hf_above_def del: of_nat_Suc)
qed

lemma sweep_above_Hf:
  assumes "topo_in g" "buffer_ok g buf" "j < numVertices g"
  shows "sweep_above g p read buf i j = Hf_above g p read i j"
  by (simp add: sweep_above_def Hf_above_def sweep_cell_Hf [OF assms])

lemma no_ov_apply: "no_ov i j = None"
  by (simp add: no_ov_def)

lemma i32_id: "- 2147483648 \<le> x \<Longrightarrow> x < 2147483648 \<Longrightarrow> i32 x = x"
  by (simp add: i32_def)

lemma fits32_row:
  assumes "fits32 p m" "i < m"
  shows "(int i + 1) * match p < 2147483648" and "int i * match p \<le> (int i + 1) * match p"
proof -
  have m: "0 \<le> match p" "int m * match p < 2147483648"
    using assms(1) by (simp_all add: fits32_def)
  have "int i + 1 \<le> int m" using assms(2) by simp
  then have "(int i + 1) * match p \<le> int m * match p"
    using m(1) by (rule mult_right_mono)
  with m(2) show "(int i + 1) * match p < 2147483648" by simp
  show "int i * match p \<le> (int i + 1) * match p"
    using m(1) by (simp add: distrib_right)
qed

lemma H_upper_row:
  assumes fit: "fits32 p m" and i: "i < m"
    and ms: "- mismatch p \<le> ms i j \<and> ms i j \<le> match p"
    and above: "\<And>u. 0 \<le> (if i = 0 then 0 else H nb rk no_ov p ms (i - 1) u)
                    \<and> (if i = 0 then 0 else H nb rk no_ov p ms (i - 1) u) \<le> int i * match p"
    and cur: "\<And>u. rk u < rk j \<Longrightarrow> H nb rk no_ov p ms i u \<le> (int i + 1) * match p"
  shows "H nb rk no_ov p ms i j \<le> (int i + 1) * match p"
    and "\<And>u. i32 ((if i = 0 then 0 else H nb rk no_ov p ms (i - 1) u) + ms i j)
              = (if i = 0 then 0 else H nb rk no_ov p ms (i - 1) u) + ms i j"
    and "\<And>u. rk u < rk j \<Longrightarrow> i32 (H nb rk no_ov p ms i u - del p) = H nb rk no_ov p ms i u - del p"
    and "i32 ((if i = 0 then 0 else H nb rk no_ov p ms (i - 1) j) - ins p)
           = (if i = 0 then 0 else H nb rk no_ov p ms (i - 1) j) - ins p"
proof -
  define A where "A u = (if i = 0 then 0 else H nb rk no_ov p ms (i - 1) u)" for u
  define B where "B = (int i + 1) * match p"
  define C where "C = int i * match p"
  have par: "0 \<le> match p" "0 \<le> mismatch p" "0 \<le> ins p" "0 \<le> del p"
    "mismatch p < 2147483648" "ins p < 2147483648" "del p < 2147483648"
    using fit by (simp_all add: fits32_def)
  have B: "B < 2147483648" "C \<le> B" "B = C + match p"
    using fits32_row [OF fit i] by (simp_all add: B_def C_def distrib_right)
  have A: "0 \<le> A u" "A u \<le> C" for u
    using above [of u] by (simp_all add: A_def C_def)
  have cur': "0 \<le> H nb rk no_ov p ms i u" "H nb rk no_ov p ms i u \<le> B" if "rk u < rk j" for u
    using cur [OF that] H_nonneg [of no_ov i u nb rk p ms] by (simp_all add: B_def no_ov_apply)
  have m1: "- 2147483648 \<le> A u + ms i j" "A u + ms i j \<le> B" for u
    using A [of u] ms par B by linarith+
  have e1: "i32 (A u + ms i j) = A u + ms i j" for u
    using m1 [of u] B(1) by (intro i32_id) linarith+
  have d1: "- 2147483648 \<le> H nb rk no_ov p ms i u - del p" "H nb rk no_ov p ms i u - del p \<le> B"
    if "rk u < rk j" for u
    using cur' [OF that] par by linarith+
  have e2: "i32 (H nb rk no_ov p ms i u - del p) = H nb rk no_ov p ms i u - del p" if "rk u < rk j" for u
    using d1 [OF that] B(1) by (intro i32_id) linarith+
  have i1: "- 2147483648 \<le> A j - ins p" "A j - ins p \<le> B"
    using A [of j] par B by linarith+
  have e3: "i32 (A j - ins p) = A j - ins p"
    using i1 B(1) by (intro i32_id) linarith+
  show "i32 ((if i = 0 then 0 else H nb rk no_ov p ms (i - 1) u) + ms i j)
              = (if i = 0 then 0 else H nb rk no_ov p ms (i - 1) u) + ms i j" for u
    using e1 [of u] by (simp only: A_def)
  show "i32 (H nb rk no_ov p ms i u - del p) = H nb rk no_ov p ms i u - del p" if "rk u < rk j" for u
    using e2 [OF that] .
  show "i32 ((if i = 0 then 0 else H nb rk no_ov p ms (i - 1) j) - ins p)
           = (if i = 0 then 0 else H nb rk no_ov p ms (i - 1) j) - ins p"
    using e3 by (simp only: A_def)
  have le: "H nb rk no_ov p ms i j \<le> B \<longleftrightarrow>
     0 \<le> B \<and> ms i j \<le> B
     \<and> (\<forall>u \<in> set (nb j). i32 (A u + ms i j) \<le> B)
     \<and> (\<forall>u \<in> set (nb j). rk u < rk j \<longrightarrow> i32 (H nb rk no_ov p ms i u - del p) \<le> B)
     \<and> i32 (A j - ins p) \<le> B"
    unfolding A_def by (rule H_le [OF no_ov_apply])
  have "0 \<le> B" "ms i j \<le> B"
    using ms par(1) A [of j] B by linarith+
  then have "H nb rk no_ov p ms i j \<le> B"
    unfolding le using m1(2) d1(2) i1(2) by (simp add: e1 e2 e3)
  then show "H nb rk no_ov p ms i j \<le> (int i + 1) * match p"
    by (simp only: B_def)
qed

lemma H_upper:
  assumes fit: "fits32 p m" and ms: "\<And>i j. - mismatch p \<le> ms i j \<and> ms i j \<le> match p"
  shows "i < m \<Longrightarrow> H nb rk no_ov p ms i j \<le> (int i + 1) * match p"
proof (induction i arbitrary: j)
  case 0
  show ?case
  proof (induction "rk j" arbitrary: j rule: less_induct)
    case less
    show ?case
      by (rule H_upper_row(1) [where ms = ms, OF fit 0 ms]) (use less in simp_all)
  qed
next
  case (Suc i)
  then have prev: "\<And>u. H nb rk no_ov p ms i u \<le> (int i + 1) * match p"
    by simp
  show ?case
  proof (induction "rk j" arbitrary: j rule: less_induct)
    case less
    show ?case
    proof (rule H_upper_row(1) [where ms = ms, OF fit Suc.prems ms])
      show "0 \<le> (if Suc i = 0 then 0 else H nb rk no_ov p ms (Suc i - 1) u)
            \<and> (if Suc i = 0 then 0 else H nb rk no_ov p ms (Suc i - 1) u) \<le> int (Suc i) * match p" for u
        using prev [of u] H_nonneg [of no_ov i u nb rk p ms] by (simp add: no_ov_apply algebra_simps)
      show "H nb rk no_ov p ms (Suc i) u \<le> (int (Suc i) + 1) * match p" if "rk u < rk j" for u
        using less [OF that] .
    qed
  qed
qed

lemma H_above_bounds:
  assumes fit: "fits32 p m" and ms: "\<And>i j. - mismatch p \<le> ms i j \<and> ms i j \<le> match p"
    and i: "i < m"
  shows "0 \<le> (if i = 0 then 0 else H nb rk no_ov p ms (i - 1) u)
         \<and> (if i = 0 then 0 else H nb rk no_ov p ms (i - 1) u) \<le> int i * match p"
proof (cases i)
  case 0
  then show ?thesis by simp
next
  case (Suc i')
  then have "i' < m" using i by simp
  from H_upper [where ms = ms and nb = nb and rk = rk and j = u, OF fit ms this]
    H_nonneg [of no_ov i' u nb rk p ms] Suc
  show ?thesis by (simp add: no_ov_apply algebra_simps)
qed

text \<open>
  Within the range of \<^verbatim>\<open>int32_t\<close> the table satisfies the recurrence over the integers.
\<close>

lemma H_exact:
  assumes fit: "fits32 p m" and ms: "\<And>i j. - mismatch p \<le> ms i j \<and> ms i j \<le> match p"
    and i: "i < m"
  shows "i32 ((if i = 0 then 0 else H nb rk no_ov p ms (i - 1) u) + ms i j)
           = (if i = 0 then 0 else H nb rk no_ov p ms (i - 1) u) + ms i j"
    and "i32 (H nb rk no_ov p ms i u - del p) = H nb rk no_ov p ms i u - del p"
    and "i32 ((if i = 0 then 0 else H nb rk no_ov p ms (i - 1) j) - ins p)
           = (if i = 0 then 0 else H nb rk no_ov p ms (i - 1) j) - ins p"
proof -
  note ab = H_above_bounds [where ms = ms and nb = nb and rk = rk, OF fit ms i]
  note up = H_upper [where ms = ms and nb = nb and rk = rk, OF fit ms i]
  show "i32 ((if i = 0 then 0 else H nb rk no_ov p ms (i - 1) u) + ms i j)
           = (if i = 0 then 0 else H nb rk no_ov p ms (i - 1) u) + ms i j"
    by (rule H_upper_row(2) [where ms = ms, OF fit i ms ab up])
  show "i32 ((if i = 0 then 0 else H nb rk no_ov p ms (i - 1) j) - ins p)
           = (if i = 0 then 0 else H nb rk no_ov p ms (i - 1) j) - ins p"
    by (rule H_upper_row(4) [where ms = ms, OF fit i ms ab up])
  have par: "0 \<le> del p" "del p < 2147483648"
    using fit by (simp_all add: fits32_def)
  from up [where j = u] H_nonneg [of no_ov i u nb rk p ms] fits32_row(1) [OF fit i] par
    no_ov_apply [of i u]
  show "i32 (H nb rk no_ov p ms i u - del p) = H nb rk no_ov p ms i u - del p"
    by (intro i32_id) linarith+
qed

lemma H_le_exact:
  assumes fit: "fits32 p m" and ms: "\<And>i j. - mismatch p \<le> ms i j \<and> ms i j \<le> match p"
    and i: "i < m"
  shows "H nb rk no_ov p ms i j \<le> v \<longleftrightarrow>
     0 \<le> v \<and> ms i j \<le> v
     \<and> (\<forall>u \<in> set (nb j). (if i = 0 then 0 else H nb rk no_ov p ms (i - 1) u) + ms i j \<le> v)
     \<and> (\<forall>u \<in> set (nb j). rk u < rk j \<longrightarrow> H nb rk no_ov p ms i u - del p \<le> v)
     \<and> (if i = 0 then 0 else H nb rk no_ov p ms (i - 1) j) - ins p \<le> v"
proof -
  note ex = H_exact [where ms = ms and nb = nb and rk = rk, OF fit ms i]
  show ?thesis
    unfolding H_le [OF no_ov_apply] ex ..
qed

lemma matchScore_at_bounds:
  assumes "fits32 p m"
  shows "- mismatch p \<le> matchScore_at g p read i j \<and> matchScore_at g p read i j \<le> match p"
    and "matchScore_at g p read i j = (if vertex_label g ! j = read ! i then match p else - mismatch p)"
proof -
  have "i32 (-1 * mismatch p) = - mismatch p"
    using assms by (intro i32_id [THEN trans]) (simp_all add: fits32_def)
  then show "matchScore_at g p read i j = (if vertex_label g ! j = read ! i then match p else - mismatch p)"
    by (simp add: matchScore_at_def)
  then show "- mismatch p \<le> matchScore_at g p read i j \<and> matchScore_at g p read i j \<le> match p"
    using assms by (simp add: fits32_def)
qed

lemma Hf_recurrence:
  assumes nb: "\<forall>u \<in> set (in_nbrs g j). u < j" and fit: "fits32 p m" and i: "i < m"
  shows "Hf g p read i j =
           Max ({0, matchScore_at g p read i j}
                \<union> (\<lambda>u. Hf_above g p read i u + matchScore_at g p read i j) ` set (in_nbrs g j)
                \<union> (\<lambda>u. Hf g p read i u - del p) ` set (in_nbrs g j)
                \<union> {Hf_above g p read i j - ins p})"
proof (rule eq_by_upper_bounds)
  fix v
  note le = H_le_exact [where ms = "matchScore_at g p read" and nb = "in_nbrs g" and rk = id
      and j = j and v = v, OF fit matchScore_at_bounds(1) [OF fit] i]
  show "Hf g p read i j \<le> v \<longleftrightarrow>
          Max ({0, matchScore_at g p read i j}
                \<union> (\<lambda>u. Hf_above g p read i u + matchScore_at g p read i j) ` set (in_nbrs g j)
                \<union> (\<lambda>u. Hf g p read i u - del p) ` set (in_nbrs g j)
                \<union> {Hf_above g p read i j - ins p}) \<le> v"
    using nb
    by (subst Max_le_iff) (auto simp: Hf_def le Hf_above_def)
qed

lemma best_inv_Max:
  assumes "best_inv n f m 0 bs br bc"
  shows "bs = Max (insert 0 ((\<lambda>(i, j). f i j) ` ({0 ..< m} \<times> {0 ..< n})))"
proof (rule Max_eqI [symmetric])
  show "finite (insert 0 ((\<lambda>(i, j). f i j) ` ({0 ..< m} \<times> {0 ..< n})))" by simp
  show "\<And>y. y \<in> insert 0 ((\<lambda>(i, j). f i j) ` ({0 ..< m} \<times> {0 ..< n})) \<Longrightarrow> y \<le> bs"
    using assms unfolding best_inv_def scanned_def by auto
  show "bs \<in> insert 0 ((\<lambda>(i, j). f i j) ` ({0 ..< m} \<times> {0 ..< n}))"
  proof (cases "\<exists>i' j'. scanned n m 0 i' j'")
    case True
    then have "scanned n m 0 br bc \<and> f br bc = bs"
      using assms unfolding best_inv_def by simp
    then have "(br, bc) \<in> {0 ..< m} \<times> {0 ..< n}" "f br bc = bs"
      by (auto simp: scanned_def)
    then show ?thesis by force
  next
    case False
    then show ?thesis using assms unfolding best_inv_def by simp
  qed
qed

lemma phase1_best_inv:
  assumes "topo_in g" and "buffer_ok g buf"
  shows "best_inv (numVertices g) (Hf g p read) (length read) 0
          (bestScore (phase1_read g p read buf)) (bestRow (phase1_read g p read buf))
          (bestCol (phase1_read g p read buf))"
  using p1_inv_rows [OF assms(2,1), of p read "length read"]
  by (simp add: p1_inv_def phase1_read_def)

lemma phase1_best_is_Max:
  assumes "topo_in g" and "buffer_ok g buf"
  shows "bestScore (phase1_read g p read buf) = Max (insert 0 (sweep_cells g p read buf))"
proof -
  have "sweep_cells g p read buf
          = (\<lambda>(i, j). Hf g p read i j) ` ({0 ..< length read} \<times> {0 ..< numVertices g})"
    unfolding sweep_cells_def
    by (intro image_cong) (auto simp: sweep_cell_Hf [OF assms])
  then show ?thesis
    using best_inv_Max [OF phase1_best_inv [OF assms, of p read]] by simp
qed

text \<open>
  C2, as it fails: on the chain \<open>A \<rightarrow> C\<close> with match reward \<open>2\<^sup>3\<^sup>0\<close> and the read \<open>AC\<close>, the
  diagonal step into cell \<open>(1, 1)\<close> adds the reward to the \<open>2\<^sup>3\<^sup>0\<close> of cell \<open>(0, 0)\<close>; the
  sum \<open>2\<^sup>3\<^sup>1\<close> does not fit \<^verbatim>\<open>int32_t\<close> and wraps to a negative number, so the cell and the
  reported score are \<open>2\<^sup>3\<^sup>0\<close>, not the \<open>2\<^sup>3\<^sup>1\<close> of the recurrence.
\<close>

theorem phase1_overflow_counterexample:
  "topo_in graph_AC \<and> buffer_ok graph_AC (fresh_buffer graph_AC)
   \<and> sweep_cell graph_AC big_match ''AC'' (fresh_buffer graph_AC) 1 1 = 1073741824
   \<and> Max ({0, matchScore_at graph_AC big_match ''AC'' 1 1}
          \<union> (\<lambda>u. sweep_above graph_AC big_match ''AC'' (fresh_buffer graph_AC) 1 u
                    + matchScore_at graph_AC big_match ''AC'' 1 1) ` set (in_nbrs graph_AC 1)
          \<union> (\<lambda>u. sweep_cell graph_AC big_match ''AC'' (fresh_buffer graph_AC) 1 u - del big_match)
               ` set (in_nbrs graph_AC 1)
          \<union> {sweep_above graph_AC big_match ''AC'' (fresh_buffer graph_AC) 1 1 - ins big_match})
       = 2147483648
   \<and> bestScore (phase1_read graph_AC big_match ''AC'' (fresh_buffer graph_AC)) = 1073741824"
  by code_simp

text \<open>
  C2, amended. Take a graph whose in-neighbours all have smaller ids (topological
  numbering) and a buffer of two rows of \<open>numVertices\<close> cells. When the scoring
  parameters are not negative and keep every score of the read within \<^verbatim>\<open>int32_t\<close> (read
  length times match reward, and each penalty, below \<open>2\<^sup>3\<^sup>1\<close>), the value the forward
  sweep writes at cell \<open>(i, j)\<close> is the maximum of 0, the match score, the best value of
  an in-neighbour in the row above plus the match score, the best value of an
  in-neighbour in the same row minus \<open>del\<close>, and the value above minus \<open>ins\<close>, the row
  above row 0 being all zero and the match score being \<open>match\<close> where the characters
  agree and \<open>-mismatch\<close> where they differ. For all scoring parameters the reported best
  score is the maximum over the values written to the cells (and 0, which every cell
  reaches), and it is never negative.
\<close>

theorem phase1_computes_recurrence:
  assumes "topo_in g" and "buffer_ok g buf"
  shows "(fits32 p (length read) \<longrightarrow>
          (\<forall>i \<in> {0 ..< length read}. \<forall>j \<in> {0 ..< numVertices g}.
            matchScore_at g p read i j
              = (if vertex_label g ! j = read ! i then match p else - mismatch p)
            \<and> sweep_cell g p read buf i j =
              Max ({0, matchScore_at g p read i j}
                   \<union> (\<lambda>u. sweep_above g p read buf i u + matchScore_at g p read i j) ` set (in_nbrs g j)
                   \<union> (\<lambda>u. sweep_cell g p read buf i u - del p) ` set (in_nbrs g j)
                   \<union> {sweep_above g p read buf i j - ins p})))
         \<and> bestScore (phase1_read g p read buf) = Max (insert 0 (sweep_cells g p read buf))
         \<and> 0 \<le> bestScore (phase1_read g p read buf)"
proof (intro conjI ballI impI)
  fix i j
  assume fit: "fits32 p (length read)"
    and i: "i \<in> {0 ..< length read}" and j: "j \<in> {0 ..< numVertices g}"
  show "matchScore_at g p read i j
          = (if vertex_label g ! j = read ! i then match p else - mismatch p)"
    by (rule matchScore_at_bounds(2) [OF fit])
  from j have nb: "\<forall>u \<in> set (in_nbrs g j). u < j"
    using assms(1) by (simp add: topo_in_def)
  then have nb': "\<forall>u \<in> set (in_nbrs g j). u < numVertices g"
    using j by auto
  have il: "i < length read" using i by simp
  have "(\<lambda>u. sweep_above g p read buf i u + matchScore_at g p read i j) ` set (in_nbrs g j)
          = (\<lambda>u. Hf_above g p read i u + matchScore_at g p read i j) ` set (in_nbrs g j)"
    using nb' by (intro image_cong) (auto simp: sweep_above_Hf [OF assms(1,2)])
  moreover have "(\<lambda>u. sweep_cell g p read buf i u - del p) ` set (in_nbrs g j)
          = (\<lambda>u. Hf g p read i u - del p) ` set (in_nbrs g j)"
    using nb' by (intro image_cong) (auto simp: sweep_cell_Hf [OF assms(1,2)])
  ultimately show "sweep_cell g p read buf i j =
              Max ({0, matchScore_at g p read i j}
                   \<union> (\<lambda>u. sweep_above g p read buf i u + matchScore_at g p read i j) ` set (in_nbrs g j)
                   \<union> (\<lambda>u. sweep_cell g p read buf i u - del p) ` set (in_nbrs g j)
                   \<union> {sweep_above g p read buf i j - ins p})"
    using j Hf_recurrence [OF nb fit il, of read]
    by (simp add: sweep_cell_Hf [OF assms(1,2)] sweep_above_Hf [OF assms(1,2)])
next
  show "bestScore (phase1_read g p read buf) = Max (insert 0 (sweep_cells g p read buf))"
    by (rule phase1_best_is_Max [OF assms(1,2)])
  show "0 \<le> bestScore (phase1_read g p read buf)"
    using phase1_best_inv [OF assms(1,2), of p read] by (simp add: best_inv_def)
qed

theorem phase1_computes_recurrence_witness:
  "topo_in graph_ACGTT \<and> buffer_ok graph_ACGTT (fresh_buffer graph_ACGTT)
   \<and> fits32 unit_scores (length ''ACG'')
   \<and> sweep_cell graph_ACGTT unit_scores ''ACG'' (fresh_buffer graph_ACGTT) 2 2 = 3
   \<and> bestScore (phase1_read graph_ACGTT unit_scores ''ACG'' (fresh_buffer graph_ACGTT))
       = Max (insert 0 (sweep_cells graph_ACGTT unit_scores ''ACG'' (fresh_buffer graph_ACGTT)))
   \<and> bestScore (phase1_read graph_ACGTT unit_scores ''ACG'' (fresh_buffer graph_ACGTT)) = 3"
proof -
  have topo: "topo_in graph_ACGTT" by code_simp
  have buf: "buffer_ok graph_ACGTT (fresh_buffer graph_ACGTT)" by code_simp
  have fit: "fits32 unit_scores (length ''ACG'')" by (simp add: fits32_def unit_scores_def)
  have cell: "sweep_cell graph_ACGTT unit_scores ''ACG'' (fresh_buffer graph_ACGTT) 2 2 = 3"
    by code_simp
  have best: "bestScore (phase1_read graph_ACGTT unit_scores ''ACG'' (fresh_buffer graph_ACGTT)) = 3"
    by code_simp
  from phase1_computes_recurrence [OF topo buf, of unit_scores "''ACG''"] topo buf fit cell best
  show ?thesis by simp
qed



section \<open>The backtrace never reads an unassigned column\<close>

lemma backtrace_scan_pos:
  "snd (snd (snd (backtrace_scan g p j0 abv cur ms c))) = None \<longrightarrow>
   fst (snd (snd (backtrace_scan g p j0 abv cur ms c))) = -1"
  unfolding backtrace_scan_def
  by (rule fold_preserves [where P = "\<lambda>s. snd (snd (snd s)) = None \<longrightarrow> fst (snd (snd s)) = -1"])
     (auto simp: Let_def split: prod.splits)

lemma backtrace_choose_assigned:
  assumes "snd (snd (snd scan)) = None \<longrightarrow> fst (snd (snd scan)) = -1"
    and "0 < currentRowScores st1 ! c"
  shows "backtrace_choose p st1 c aboveRowScores matchScore scan \<noteq> Inl UninitializedRead"
proof (cases "snd (snd (snd scan))")
  case None
  with assms have "currentRowScores st1 ! c \<noteq> fst (snd (snd scan))" by simp
  then show ?thesis
    by (simp add: backtrace_choose_def Let_def)
next
  case (Some pos)
  then show ?thesis
    by (simp add: backtrace_choose_def Let_def)
qed

lemma backtrace_step_assigned:
  "backtrace_step g p read j0 i0 reducedWidth completeMatrixLog st \<noteq> Inl UninitializedRead"
proof (cases "currentRowScores st ! nat (col st) \<le> 0")
  case True
  then show ?thesis by (simp add: backtrace_step_def Let_def)
next
  case False
  then have "0 < currentRowScores (st\<lparr>used_cols := used_cols st @ [nat (col st) + j0]\<rparr>) ! nat (col st)"
    by simp
  from backtrace_choose_assigned [OF backtrace_scan_pos this] False show ?thesis
    by (simp add: backtrace_step_def Let_def)
qed

lemma backtrace_assigned:
  assumes "backtrace g p read j0 i0 reducedWidth completeMatrixLog st = Some y"
  shows "y \<noteq> Inl UninitializedRead"
proof (rule backtrace.raw_induct
    [where P = "\<lambda>_ _ _ _ _ _ _ _ y. y \<noteq> Inl UninitializedRead", OF _ assms])
  fix bt g p read j0 i0 reducedWidth completeMatrixLog st y
  assume IH: "\<And>g p read j0 i0 reducedWidth completeMatrixLog st y.
                bt g p read j0 i0 reducedWidth completeMatrixLog st = Some y \<Longrightarrow>
                y \<noteq> Inl UninitializedRead"
    and body: "(if 0 \<le> col st \<and> 0 \<le> row st
      then case backtrace_step g p read j0 i0 reducedWidth completeMatrixLog st of
           Inl e \<Rightarrow> Some (Inl e) | Inr (Break st') \<Rightarrow> Some (Inr st')
           | Inr (Continue st') \<Rightarrow> bt g p read j0 i0 reducedWidth completeMatrixLog st'
      else Some (Inr st)) = Some y"
  show "y \<noteq> Inl UninitializedRead"
    using body IH backtrace_step_assigned [of g p read j0 i0 reducedWidth completeMatrixLog st]
    by (auto split: if_splits sum.splits loop.splits)
qed

text \<open>
  C10. In the backtrace the deletion branch is entered only when the score of the
  current cell equals \<open>fromDeletion\<close>. The loop has already left if that score is not
  positive, and \<open>fromDeletion\<close> starts at -1 and changes only in the assignment that also
  sets \<open>fromDeletionPos\<close>. So \<open>fromDeletionPos\<close> holds a column whenever it is read: no
  iteration, and hence no run of the loop, ends in the read of an unassigned variable.
\<close>

theorem fromDeletionPos_assigned_before_read:
  "backtrace_step g p read j0 i0 reducedWidth completeMatrixLog st \<noteq> Inl UninitializedRead
   \<and> backtrace g p read j0 i0 reducedWidth completeMatrixLog st \<noteq> Some (Inl UninitializedRead)"
  using backtrace_step_assigned backtrace_assigned by blast

theorem fromDeletionPos_assigned_before_read_witness:
  "backtrace_step graph_ACGTT unit_scores ''AGT'' 0 0 4 [[1, 0, 0, 0], [0, 0, 1, 0], [0, 0, 0, 1]]
     \<lparr>col = 2, row = 1, currentRowScores = [0, 0, 1, 0], cigar_ops = ''='', used_cols = [3]\<rparr>
   \<noteq> Inl UninitializedRead"
  using fromDeletionPos_assigned_before_read by blast


section \<open>The rectangle of phase 2\<close>

lemma phase2_cell_lengths:
  assumes "length (fst acc) = 2 \<and> length (fst acc ! 0) = w \<and> length (fst acc ! 1) = w"
  shows "length (fst (phase2_cell g p read j0 i0 i j acc)) = 2
         \<and> length (fst (phase2_cell g p read j0 i0 i j acc) ! 0) = w
         \<and> length (fst (phase2_cell g p read j0 i0 i j acc) ! 1) = w"
proof -
  have len: "length (fst acc) = 2" using assms by simp
  have r: "ring (int i) < 2" by (rule ring_simps(1))
  have "\<exists>v. fst (phase2_cell g p read j0 i0 i j acc)
          = (fst acc)[ring (int i) := (fst acc ! ring (int i))[j := v]]"
    unfolding phase2_cell_def Let_def fst_conv by (rule exI, rule refl)
  then obtain v where "fst (phase2_cell g p read j0 i0 i j acc)
          = (fst acc)[ring (int i) := (fst acc ! ring (int i))[j := v]]"
    by blast
  then show ?thesis
    using list2_rows [OF len, of "ring (int i)" j v] r assms by simp
qed

lemma phase2_rows_lengths:
  "length (fst (phase2_rows g p read j0 i0 w h k)) = 2
   \<and> length (fst (phase2_rows g p read j0 i0 w h k) ! 0) = w
   \<and> length (fst (phase2_rows g p read j0 i0 w h k) ! 1) = w"
  unfolding phase2_rows_def
proof (rule fold_preserves
    [where P = "\<lambda>acc. length (fst acc) = 2 \<and> length (fst acc ! 0) = w \<and> length (fst acc ! 1) = w"])
  show "length (fst (replicate 2 (replicate w (0::int)), replicate h (replicate w (0::int8_t)))) = 2
        \<and> length (fst (replicate 2 (replicate w (0::int)), replicate h (replicate w (0::int8_t))) ! 0) = w
        \<and> length (fst (replicate 2 (replicate w (0::int)), replicate h (replicate w (0::int8_t))) ! 1) = w"
    by simp
next
  fix i and acc :: "int list list \<times> int8_t list list"
  assume "length (fst acc) = 2 \<and> length (fst acc ! 0) = w \<and> length (fst acc ! 1) = w"
  then show "length (fst (phase2_row g p read j0 i0 w i acc)) = 2
        \<and> length (fst (phase2_row g p read j0 i0 w i acc) ! 0) = w
        \<and> length (fst (phase2_row g p read j0 i0 w i acc) ! 1) = w"
    unfolding phase2_row_def
    by (rule fold_preserves
        [where P = "\<lambda>acc. length (fst acc) = 2 \<and> length (fst acc ! 0) = w \<and> length (fst acc ! 1) = w"])
       (rule phase2_cell_lengths)
qed

lemma phase2_recompute_length:
  "length (fst (phase2_recompute g p read j0 i0 w h)) = w"
proof (cases "h = 0")
  case True
  then show ?thesis by (simp add: phase2_recompute_def Let_def)
next
  case False
  have "ring (int h - 1) < 2" by (rule ring_simps(2))
  then have "ring (int h - 1) = 0 \<or> ring (int h - 1) = 1"
    by linarith
  with False phase2_rows_lengths [of g p read j0 i0 w h h] show ?thesis
    by (auto simp: phase2_recompute_def Let_def)
qed

text \<open>
  Phase 2 for a rectangle of at least one column and no negative height, written with the
  sizes as natural numbers.
\<close>

lemma phase2_read_unfold:
  assumes cols: "refColumnStart info \<le> refColumnEnd info"
    and rows: "qryRowStart info \<le> qryRowEnd info + 1"
  shows "phase2_read g p read info =
     (let w = refColumnEnd info - refColumnStart info + 1;
          h = qryRowEnd info + 1 - qryRowStart info;
          rc = phase2_recompute g p read (refColumnStart info) (qryRowStart info) w h
      in if max_element (fst rc) \<noteq> score info then Some (Inl (AssertionFailed RecomputedScore))
         else if max_element (fst rc) \<noteq> fst rc ! (refColumnEnd info - refColumnStart info)
         then Some (Inl (AssertionFailed RecomputedLocation))
         else
           (case backtrace g p read (refColumnStart info) (qryRowStart info) w (snd rc)
                   \<lparr>col = int w - 1, row = int h - 1,
                    currentRowScores = fst rc, cigar_ops = [], used_cols = []\<rparr> of
              None \<Rightarrow> None
            | Some (Inl e) \<Rightarrow> Some (Inl e)
            | Some (Inr st) \<Rightarrow>
                (let cig = cigarCompact (rev (cigar_ops st))
                 in if cigarScore cig p \<noteq> score info
                    then Some (Inl (AssertionFailed CigarScore))
                    else Some (Inr (info\<lparr>cigar := cig, refColumns := rev (used_cols st)\<rparr>)))))"
proof -
  define w where "w = refColumnEnd info - refColumnStart info + 1"
  define h where "h = qryRowEnd info + 1 - qryRowStart info"
  have width: "int (refColumnEnd info) - int (refColumnStart info) + 1 = int w"
    using cols by (simp add: w_def)
  have height: "int (qryRowEnd info) - int (qryRowStart info) + 1 = int h"
    using rows by (simp add: h_def)
  have "length (fst (phase2_recompute g p read (refColumnStart info) (qryRowStart info) w h)) = w"
    by (rule phase2_recompute_length)
  moreover have "0 < w" by (simp add: w_def)
  ultimately have ne: "fst (phase2_recompute g p read (refColumnStart info) (qryRowStart info) w h) \<noteq> []"
    by auto
  show ?thesis
    unfolding phase2_read_def width height w_def [symmetric] h_def [symmetric]
    using ne by (simp add: Let_def)
qed

lemma phase2_read_range:
  assumes "phase2_read g p read info = Some (Inr info')"
  shows "refColumnStart info \<le> refColumnEnd info \<and> qryRowStart info \<le> qryRowEnd info + 1"
proof -
  define width where "width = int (refColumnEnd info) - int (refColumnStart info) + 1"
  define height where "height = int (qryRowEnd info) - int (qryRowStart info) + 1"
  have neg: "phase2_read g p read info = Some (Inl OutOfRange)" if "width < 0 \<or> height < 0"
    unfolding phase2_read_def width_def [symmetric] height_def [symmetric]
    using that by (simp add: Let_def)
  have zero: "phase2_read g p read info = Some (Inl OutOfRange)" if "nat width = 0"
  proof -
    have "fst (phase2_recompute g p read (refColumnStart info) (qryRowStart info)
                        (nat width) (nat height)) = []"
      using phase2_recompute_length [of g p read "refColumnStart info" "qryRowStart info" 0 "nat height"]
        that by simp
    then show ?thesis
      unfolding phase2_read_def width_def [symmetric] height_def [symmetric]
      by (simp add: Let_def)
  qed
  from neg zero assms have "\<not> width < 0" "\<not> height < 0" "nat width \<noteq> 0"
    by auto
  then have "0 < width" "0 \<le> height" by linarith+
  then show ?thesis
    unfolding width_def height_def by linarith
qed

section \<open>The recorded columns\<close>

lemma backtrace_scan_cols:
  assumes "\<forall>u \<in> set (in_nbrs g (c + j0)). u < c + j0"
  shows "fst (snd (backtrace_scan g p j0 abv cur ms c)) \<le> c
         \<and> (\<forall>pos. snd (snd (snd (backtrace_scan g p j0 abv cur ms c))) = Some pos \<longrightarrow> pos < c)"
  unfolding backtrace_scan_def
proof (rule fold_preserves_mem
    [where P = "\<lambda>s. fst (snd s) \<le> c \<and> (\<forall>pos. snd (snd (snd s)) = Some pos \<longrightarrow> pos < c)"])
  show "fst (snd (ms, c, - 1, None)) \<le> c
        \<and> (\<forall>pos. snd (snd (snd (ms, c, - 1 :: int, None :: nat option))) = Some pos \<longrightarrow> pos < c)"
    by simp
next
  fix k and s :: "int \<times> nat \<times> int \<times> nat option"
  assume k: "k \<in> set [offsets_in g ! (c + j0) ..< offsets_in g ! (c + j0 + 1)]"
    and s: "fst (snd s) \<le> c \<and> (\<forall>pos. snd (snd (snd s)) = Some pos \<longrightarrow> pos < c)"
  from k assms have "adjcny_in g ! k < c + j0"
    by (simp add: in_nbrs_def)
  then have "j0 \<le> adjcny_in g ! k \<Longrightarrow> adjcny_in g ! k - j0 < c"
    by simp
  with s show "fst (snd ((case s of (fromMatch, fromMatchPos, fromDeletion, fromDeletionPos) \<Rightarrow>
             if adjcny_in g ! k \<ge> j0
             then (let fromCol = adjcny_in g ! k - j0;
                       m = (if fromMatch < i32 (abv ! fromCol + ms)
                            then (i32 (abv ! fromCol + ms), fromCol)
                            else (fromMatch, fromMatchPos));
                       d = (if fromDeletion < i32 (cur ! fromCol - del p)
                            then (i32 (cur ! fromCol - del p), Some fromCol)
                            else (fromDeletion, fromDeletionPos))
                   in (fst m, snd m, fst d, snd d))
             else (fromMatch, fromMatchPos, fromDeletion, fromDeletionPos)))) \<le> c
        \<and> (\<forall>pos. snd (snd (snd ((case s of (fromMatch, fromMatchPos, fromDeletion, fromDeletionPos) \<Rightarrow>
             if adjcny_in g ! k \<ge> j0
             then (let fromCol = adjcny_in g ! k - j0;
                       m = (if fromMatch < i32 (abv ! fromCol + ms)
                            then (i32 (abv ! fromCol + ms), fromCol)
                            else (fromMatch, fromMatchPos));
                       d = (if fromDeletion < i32 (cur ! fromCol - del p)
                            then (i32 (cur ! fromCol - del p), Some fromCol)
                            else (fromDeletion, fromDeletionPos))
                   in (fst m, snd m, fst d, snd d))
             else (fromMatch, fromMatchPos, fromDeletion, fromDeletionPos))))) = Some pos \<longrightarrow> pos < c)"
    by (cases s) (auto simp: Let_def)
qed

lemma backtrace_choose_cols:
  "backtrace_choose p st1 c abv ms scan = Inr (Break st') \<Longrightarrow>
     used_cols st' = used_cols st1"
  "backtrace_choose p st1 c abv ms scan = Inr (Continue st') \<Longrightarrow>
     used_cols st' = used_cols st1
     \<and> (col st' = int (fst (snd scan))
        \<or> (\<exists>pos. snd (snd (snd scan)) = Some pos \<and> col st' = int pos)
        \<or> col st' = col st1)"
  by (auto simp: backtrace_choose_def Let_def split: if_splits option.splits)

lemma backtrace_step_cols:
  assumes inv: "bt_cols_ok j0 w st" and col: "0 \<le> col st"
    and topo: "\<forall>u \<in> set (in_nbrs g (nat (col st) + j0)). u < nat (col st) + j0"
  shows "backtrace_step g p read j0 i0 w lg st = Inr (Break st') \<Longrightarrow>
           cols_in_band j0 w (used_cols st')"
    and "backtrace_step g p read j0 i0 w lg st = Inr (Continue st') \<Longrightarrow> bt_cols_ok j0 w st'"
proof -
  define c where "c = nat (col st)"
  define st1 where "st1 = st\<lparr>used_cols := used_cols st @ [c + j0]\<rparr>"
  have colw: "col st < int w"
    using inv by (simp add: bt_cols_ok_def)
  have c: "int c = col st" "c < w"
    using colw col by (simp_all add: c_def)
  have sorted1: "sorted (rev (used_cols st1))"
    using inv c by (auto simp: st1_def bt_cols_ok_def)
  have bounds1: "\<forall>x \<in> set (used_cols st1). j0 \<le> x \<and> x < j0 + w \<and> int j0 + col st \<le> int x"
    using inv c by (auto simp: st1_def bt_cols_ok_def)
  have band1: "cols_in_band j0 w (used_cols st1)"
    using sorted1 bounds1 by (simp add: cols_in_band_def)
  have col1: "col st1 = col st" by (simp add: st1_def)
  let ?abv = "map (\<lambda>i. i32 (currentRowScores st ! i - sint (lg ! nat (row st) ! i))) [0 ..< w]"
  let ?ms = "if vertex_label g ! (c + j0) = read ! (nat (row st) + i0) then match p
             else i32 (-1 * mismatch p)"
  let ?scan = "backtrace_scan g p j0 ?abv (currentRowScores st) ?ms c"
  have step: "backtrace_step g p read j0 i0 w lg st =
                (if currentRowScores st ! c \<le> 0 then Inr (Break st1)
                 else backtrace_choose p st1 c ?abv ?ms ?scan)"
    by (simp add: backtrace_step_def Let_def c_def st1_def)
  have scan: "fst (snd ?scan) \<le> c" "\<And>pos. snd (snd (snd ?scan)) = Some pos \<Longrightarrow> pos < c"
    using backtrace_scan_cols [of g c j0 p ?abv "currentRowScores st" ?ms] topo
    by (simp_all add: c_def)
  show "cols_in_band j0 w (used_cols st')" if "backtrace_step g p read j0 i0 w lg st = Inr (Break st')"
    using that band1 backtrace_choose_cols(1) [of p st1 c ?abv ?ms ?scan st']
    unfolding step by (auto split: if_splits)
  show "bt_cols_ok j0 w st'" if "backtrace_step g p read j0 i0 w lg st = Inr (Continue st')"
  proof -
    from that have ch: "backtrace_choose p st1 c ?abv ?ms ?scan = Inr (Continue st')"
      unfolding step by (auto split: if_splits)
    from backtrace_choose_cols(2) [OF ch] have used: "used_cols st' = used_cols st1"
      and cases: "col st' = int (fst (snd ?scan))
        \<or> (\<exists>pos. snd (snd (snd ?scan)) = Some pos \<and> col st' = int pos)
        \<or> col st' = col st1"
      by simp_all
    from cases scan c col1 have le: "col st' \<le> col st"
      by auto
    with c have "col st' < int w" by simp
    moreover have "\<forall>x \<in> set (used_cols st'). j0 \<le> x \<and> x < j0 + w \<and> int j0 + col st' \<le> int x"
      using bounds1 le unfolding used by auto
    ultimately show ?thesis
      using sorted1 unfolding used [symmetric] by (simp add: bt_cols_ok_def)
  qed
qed

lemma backtrace_cols:
  assumes run: "backtrace g p read j0 i0 w lg st = Some y"
  shows "topo_in g \<longrightarrow> j0 + w \<le> numVertices g \<longrightarrow> bt_cols_ok j0 w st \<longrightarrow>
           (\<forall>st'. y = Inr st' \<longrightarrow> cols_in_band j0 w (used_cols st'))"
proof (rule backtrace.raw_induct
    [where P = "\<lambda>g p read j0 i0 w lg st y.
       topo_in g \<longrightarrow> j0 + w \<le> numVertices g \<longrightarrow> bt_cols_ok j0 w st \<longrightarrow>
           (\<forall>st'. y = Inr st' \<longrightarrow> cols_in_band j0 w (used_cols st'))", OF _ run])
  fix bt g p read j0 i0 w lg st y
  assume IH: "\<And>g p read j0 i0 w lg st y.
                bt g p read j0 i0 w lg st = Some y \<Longrightarrow>
                topo_in g \<longrightarrow> j0 + w \<le> numVertices g \<longrightarrow> bt_cols_ok j0 w st \<longrightarrow>
                  (\<forall>st'. y = Inr st' \<longrightarrow> cols_in_band j0 w (used_cols st'))"
    and body: "(if 0 \<le> col st \<and> 0 \<le> row st
      then case backtrace_step g p read j0 i0 w lg st of
           Inl e \<Rightarrow> Some (Inl e) | Inr (Break st') \<Rightarrow> Some (Inr st')
           | Inr (Continue st') \<Rightarrow> bt g p read j0 i0 w lg st'
      else Some (Inr st)) = Some y"
  show "topo_in g \<longrightarrow> j0 + w \<le> numVertices g \<longrightarrow> bt_cols_ok j0 w st \<longrightarrow>
           (\<forall>st'. y = Inr st' \<longrightarrow> cols_in_band j0 w (used_cols st'))"
  proof (intro impI allI)
    fix st'
    assume topo: "topo_in g" and n: "j0 + w \<le> numVertices g" and inv: "bt_cols_ok j0 w st"
      and y: "y = Inr st'"
    show "cols_in_band j0 w (used_cols st')"
    proof (cases "0 \<le> col st \<and> 0 \<le> row st")
      case False
      with body y have "st' = st" by simp
      with inv show ?thesis by (auto simp: bt_cols_ok_def cols_in_band_def)
    next
      case True
      moreover have "col st < int w"
        using inv by (simp add: bt_cols_ok_def)
      ultimately have "nat (col st) + j0 < numVertices g"
        using n by linarith
      then have nb: "\<forall>u \<in> set (in_nbrs g (nat (col st) + j0)). u < nat (col st) + j0"
        using topo by (simp add: topo_in_def)
      note step = backtrace_step_cols [OF inv _ nb, of p read i0 lg]
      show ?thesis
      proof (cases "backtrace_step g p read j0 i0 w lg st")
        case (Inl e)
        with body True y show ?thesis by simp
      next
        case (Inr l)
        show ?thesis
        proof (cases l)
          case (Break st'')
          with Inr body True y have "st'' = st'" by simp
          with step(1) [of st''] Inr Break True show ?thesis by simp
        next
          case (Continue st'')
          with Inr body True have "bt g p read j0 i0 w lg st'' = Some y" by simp
          from IH [OF this] topo n step(2) [of st''] Inr Continue True y show ?thesis by simp
        qed
      qed
    qed
  qed
qed

lemma cols_in_band_rev:
  "cols_in_band j0 w cols \<Longrightarrow> sorted (rev cols) \<and> (\<forall>x \<in> set (rev cols). j0 \<le> x \<and> x \<le> j0 + w - 1)"
  by (auto simp: cols_in_band_def)

text \<open>
  C7. For a graph whose in-neighbours all have smaller ids and a record whose end column
  is a vertex of the graph: when phase 2 stores a column list, the list is
  non-decreasing and every column lies between \<open>refColumnStart\<close> and \<open>refColumnEnd\<close>. The
  backtrace starts at the last column of the band, moves only to an in-neighbour inside
  the band (a smaller column) or stays, and the recorded columns are reversed at the
  end. A rectangle with no row is included: there the loop body never runs and the
  stored list is empty.
\<close>

theorem refColumns_sorted_in_band:
  assumes "topo_in g" and "refColumnEnd info < numVertices g"
    and "phase2_read g p read info = Some (Inr info')"
  shows "sorted (refColumns info')
         \<and> (\<forall>x \<in> set (refColumns info'). refColumnStart info \<le> x \<and> x \<le> refColumnEnd info)"
proof -
  let ?j0 = "refColumnStart info"
  let ?w = "refColumnEnd info - refColumnStart info + 1"
  let ?h = "qryRowEnd info + 1 - qryRowStart info"
  let ?rc = "phase2_recompute g p read ?j0 (qryRowStart info) ?w ?h"
  let ?st0 = "\<lparr>col = int ?w - 1, row = int ?h - 1, currentRowScores = fst ?rc,
               cigar_ops = [], used_cols = []\<rparr>"
  from phase2_read_range [OF assms(3)]
  have le: "refColumnStart info \<le> refColumnEnd info" and rows: "qryRowStart info \<le> qryRowEnd info + 1"
    by simp_all
  from assms(3) obtain st where
    bt: "backtrace g p read ?j0 (qryRowStart info) ?w (snd ?rc) ?st0 = Some (Inr st)"
    and cols: "refColumns info' = rev (used_cols st)"
    unfolding phase2_read_unfold [OF le rows]
    by (auto simp: Let_def split: if_splits option.splits sum.splits)
  have "bt_cols_ok ?j0 ?w ?st0"
    by (simp add: bt_cols_ok_def)
  moreover have "?j0 + ?w \<le> numVertices g"
    using le assms(2) by simp
  ultimately have "cols_in_band ?j0 ?w (used_cols st)"
    using backtrace_cols [OF bt] assms(1) by blast
  from cols_in_band_rev [OF this] le show ?thesis
    unfolding cols by auto
qed

theorem refColumns_sorted_in_band_witness:
  "topo_in graph_ACGTT
   \<and> refColumnEnd (BestScoreInfo_init\<lparr>score := 4, refColumnEnd := 3, qryRowStart := 1, qryRowEnd := 4\<rparr>)
       < numVertices graph_ACGTT
   \<and> refColumns (projr (the (phase2_read graph_ACGTT unit_scores ''AACGT''
        (BestScoreInfo_init\<lparr>score := 4, refColumnEnd := 3, qryRowStart := 1, qryRowEnd := 4\<rparr>))))
       = [0, 1, 2, 3]
   \<and> sorted (refColumns (projr (the (phase2_read graph_ACGTT unit_scores ''AACGT''
        (BestScoreInfo_init\<lparr>score := 4, refColumnEnd := 3, qryRowStart := 1, qryRowEnd := 4\<rparr>)))))"
proof -
  let ?info = "BestScoreInfo_init\<lparr>score := 4, refColumnEnd := 3, qryRowStart := 1, qryRowEnd := 4\<rparr>"
  have topo: "topo_in graph_ACGTT" by code_simp
  have e: "refColumnEnd ?info < numVertices graph_ACGTT" by code_simp
  have run: "phase2_read graph_ACGTT unit_scores ''AACGT'' ?info
               = Some (Inr (?info\<lparr>cigar := ''4='', refColumns := [0, 1, 2, 3]\<rparr>))"
    by code_simp
  from refColumns_sorted_in_band [OF topo e run] topo e run show ?thesis
    by (simp add: BestScoreInfo_init_def)
qed

section \<open>Scoring a compacted CIGAR string\<close>













section \<open>Phase 2 recomputes the table of the rectangle\<close>


















section \<open>The vertical differences fit in eight bits\<close>














section \<open>The scan of the in-edges in the backtrace\<close>




section \<open>One iteration of the backtrace\<close>









section \<open>The CIGAR string scores to the stored score\<close>






section \<open>Argument errors and strands\<close>

lemma on_ok_not_invalid:
  "not_invalid r \<Longrightarrow> (\<And>s. not_invalid (f s)) \<Longrightarrow> not_invalid (on_ok f r)"
  by (auto simp: on_ok_def not_invalid_def split: sum.splits)

lemma phase1_rev_cell_not_invalid: "not_invalid (phase1_rev_cell g p read info i j st)"
  by (simp add: phase1_rev_cell_def Let_def not_invalid_def)

lemma phase1_rev_row_not_invalid: "not_invalid (phase1_rev_row g p read info i st)"
  unfolding phase1_rev_row_def
proof (rule fold_preserves [where P = not_invalid])
  show "not_invalid (Inr st)" by (simp add: not_invalid_def)
  show "not_invalid (on_ok (phase1_rev_cell g p read info i j) r)" if "not_invalid r" for j r
    using that by (rule on_ok_not_invalid) (rule phase1_rev_cell_not_invalid)
qed

lemma phase1_rev_rows_not_invalid: "not_invalid (phase1_rev_rows g p read info buf k)"
  unfolding phase1_rev_rows_def
proof (rule fold_preserves [where P = not_invalid])
  show "not_invalid (Inr \<lparr>matrix = buf[1 := replicate (numVertices g) 0],
             bestScore = 0, bestRow = 0, bestCol = 0\<rparr>)"
    by (simp add: not_invalid_def)
  show "not_invalid (on_ok (phase1_rev_row g p read info i) r)" if "not_invalid r" for i r
    using that by (rule on_ok_not_invalid) (rule phase1_rev_row_not_invalid)
qed

lemma phase1_rev_read_not_invalid: "not_invalid (phase1_rev_read g p read info buf)"
  using phase1_rev_rows_not_invalid [of g p read info buf "length read"]
  by (auto simp: phase1_rev_read_def not_invalid_def split: sum.splits)

lemma phase1_rev_readno_not_invalid:
  "not_invalid r \<Longrightarrow> not_invalid (phase1_rev_readno g p readSet readno r)"
  using phase1_rev_read_not_invalid
  by (auto simp: phase1_rev_readno_def not_invalid_def split: sum.splits)

lemma phase1_rev_scalar_not_invalid:
  "not_invalid (alignToDAGLocal_Phase1_rev_scalar readSet g p bsv)"
proof -
  have "not_invalid (fold (phase1_rev_readno g p readSet) [0 ..< length readSet]
                   (Inr (replicate 2 (replicate (numVertices g) 0), bsv)))"
  proof (rule fold_preserves [where P = not_invalid])
    show "not_invalid (Inr (replicate 2 (replicate (numVertices g) 0), bsv))"
      by (simp add: not_invalid_def)
  qed (rule phase1_rev_readno_not_invalid)
  then show ?thesis
    by (auto simp: alignToDAGLocal_Phase1_rev_scalar_def not_invalid_def split: sum.splits)
qed

lemma backtrace_choose_not_invalid:
  "backtrace_choose p st1 c aboveRowScores matchScore scan \<noteq> Inl InvalidArgument"
  by (simp add: backtrace_choose_def Let_def split: option.splits)

lemma backtrace_step_not_invalid:
  "backtrace_step g p read j0 i0 w lg st \<noteq> Inl InvalidArgument"
  by (simp add: backtrace_step_def Let_def backtrace_choose_not_invalid)

lemma backtrace_not_invalid:
  assumes "backtrace g p read j0 i0 reducedWidth completeMatrixLog st = Some y"
  shows "y \<noteq> Inl InvalidArgument"
proof (rule backtrace.raw_induct
    [where P = "\<lambda>_ _ _ _ _ _ _ _ y. y \<noteq> Inl InvalidArgument", OF _ assms])
  fix bt g p read j0 i0 reducedWidth completeMatrixLog st y
  assume IH: "\<And>g p read j0 i0 reducedWidth completeMatrixLog st y.
                bt g p read j0 i0 reducedWidth completeMatrixLog st = Some y \<Longrightarrow>
                y \<noteq> Inl InvalidArgument"
    and body: "(if 0 \<le> col st \<and> 0 \<le> row st
      then case backtrace_step g p read j0 i0 reducedWidth completeMatrixLog st of
           Inl e \<Rightarrow> Some (Inl e) | Inr (Break st') \<Rightarrow> Some (Inr st')
           | Inr (Continue st') \<Rightarrow> bt g p read j0 i0 reducedWidth completeMatrixLog st'
      else Some (Inr st)) = Some y"
  show "y \<noteq> Inl InvalidArgument"
    using body IH backtrace_step_not_invalid [of g p read j0 i0 reducedWidth completeMatrixLog st]
    by (auto split: if_splits sum.splits loop.splits)
qed

lemma phase2_read_not_invalid: "phase2_read g p read info \<noteq> Some (Inl InvalidArgument)"
  by (auto simp: phase2_read_def Let_def dest!: backtrace_not_invalid
        split: option.splits sum.splits if_splits)

lemma phase2_reads_not_invalid: "phase2_reads g p reads infos \<noteq> Some (Inl InvalidArgument)"
  using phase2_read_not_invalid
  by (induction reads arbitrary: infos) (auto split: option.splits sum.splits)

lemma alignToDAGLocal_not_invalid: "alignToDAGLocal readSet g p \<noteq> Some (Inl InvalidArgument)"
  using phase2_reads_not_invalid phase1_rev_scalar_not_invalid
  by (auto simp: alignToDAGLocal_def alignToDAGLocal_Phase2_def alignToDAGLocal_Phase1_scalar_def
        Let_def not_invalid_def split: sum.splits if_splits)

lemma phase1_read_empty:
  "phase1_read g p [] buf =
     \<lparr>matrix = buf[1 := replicate (numVertices g) 0], bestScore = 0, bestRow = 0, bestCol = 0\<rparr>"
  by (simp add: phase1_read_def phase1_rows_def)

text \<open>
  C9. The claim: a query set that contains an empty query is rejected with
  InvalidArgument instead of being aligned. The code has no check on the length of a
  query. On the graph \<open>A\<close> the query set holding only the empty query passes phase 1,
  which gives the empty query score 0 at end cell (0, 0), and the run ends elsewhere,
  not with InvalidArgument.
\<close>

theorem empty_query_not_rejected_counterexample:
  "alignToDAG [''''] graph_A unit_scores LOCAL = Some (Inl (AssertionFailed ReverseScoreOffByOne))
   \<and> alignToDAGLocal_Phase1_scalar [''''] graph_A unit_scores [BestScoreInfo_init]
       = Inr [BestScoreInfo_init\<lparr>score := 0, refColumnEnd := 0, qryRowEnd := 0\<rparr>]"
  by code_simp

text \<open>
  C9, amended. In local mode no query set makes the program stop with InvalidArgument;
  the only argument check of \<^verbatim>\<open>alignToDAG\<close> is the alignment mode. An empty query
  enters phase 1 like any other query: its sweep has no rows, and it leaves score 0 and
  end cell (0, 0).
\<close>

theorem empty_query_enters_phase1:
  "alignToDAG reads g p LOCAL \<noteq> Some (Inl InvalidArgument)
   \<and> phase1_read g p [] buf =
       \<lparr>matrix = buf[1 := replicate (numVertices g) 0], bestScore = 0, bestRow = 0, bestCol = 0\<rparr>"
  by (simp add: alignToDAG_def alignToDAGLocal_not_invalid phase1_read_empty)

lemma phase1_rev_read_strand:
  "phase1_rev_read g p read info buf = Inr res \<Longrightarrow> strand (snd res) = strand info"
  by (auto simp: phase1_rev_read_def split: sum.splits if_splits)

lemma plus_strands_update:
  assumes "plus_strands n bsv" "strand b = strand (bsv ! k)"
  shows "plus_strands n (bsv[k := b])"
proof (cases "k < length bsv")
  case True
  then have "strand b = CHR ''+''" using assms by (simp add: plus_strands_def)
  then show ?thesis
    using assms(1) by (auto simp: plus_strands_def dest!: set_update_subset_insert [THEN subsetD])
next
  case False
  then have "bsv[k := b] = bsv" by (intro list_update_beyond) simp
  with assms(1) show ?thesis by simp
qed

lemma phase1_rev_readno_strands:
  "ok_plus_strands n r \<Longrightarrow> ok_plus_strands n (phase1_rev_readno g p readSet readno r)"
  by (auto simp: ok_plus_strands_def phase1_rev_readno_def
        intro!: plus_strands_update dest: phase1_rev_read_strand split: sum.splits)

lemma phase1_rev_scalar_strands:
  assumes "plus_strands n bsv" "alignToDAGLocal_Phase1_rev_scalar readSet g p bsv = Inr out"
  shows "plus_strands n out"
proof -
  have "ok_plus_strands n (fold (phase1_rev_readno g p readSet) [0 ..< length readSet]
                   (Inr (replicate 2 (replicate (numVertices g) 0), bsv)))"
  proof (rule fold_preserves [where P = "ok_plus_strands n"])
    show "ok_plus_strands n (Inr (replicate 2 (replicate (numVertices g) 0), bsv))"
      using assms(1) by (simp add: ok_plus_strands_def)
  qed (rule phase1_rev_readno_strands)
  with assms(2) show ?thesis
    by (auto simp: alignToDAGLocal_Phase1_rev_scalar_def ok_plus_strands_def
          split: sum.splits if_splits)
qed

lemma phase2_read_strand:
  "phase2_read g p read info = Some (Inr info') \<Longrightarrow> strand info' = strand info"
  by (auto simp: phase2_read_def Let_def split: option.splits sum.splits if_splits)

lemma phase2_reads_strands:
  "plus_strands (length reads) infos \<Longrightarrow> phase2_reads g p reads infos = Some (Inr out) \<Longrightarrow>
   plus_strands (length reads) out"
proof (induction reads arbitrary: infos out)
  case Nil
  then show ?case by (simp add: plus_strands_def)
next
  case (Cons read reads)
  from Cons.prems(1) obtain info rest where infos: "infos = info # rest"
    by (cases infos) (auto simp: plus_strands_def)
  with Cons.prems(1) have rest: "plus_strands (length reads) rest" and info: "strand info = CHR ''+''"
    by (simp_all add: plus_strands_def)
  from Cons.prems(2) infos obtain info' out' where
    r: "phase2_read g p read info = Some (Inr info')"
    and rs: "phase2_reads g p reads rest = Some (Inr out')" and out: "out = info' # out'"
    by (auto split: option.splits sum.splits)
  from Cons.IH [OF rest rs] phase2_read_strand [OF r] info out show ?case
    by (simp add: plus_strands_def)
qed

lemma select_strand_plus: "strand (fst (select_strand rs bsv readno)) = CHR ''+''"
  by (simp add: select_strand_def)

lemma readSet_P1_Cons: "readSet_P1_of (x # xs) = x # x # readSet_P1_of xs"
  by (simp add: readSet_P1_of_def Let_def)

lemma readSet_P1_length: "length (readSet_P1_of readSet) = 2 * length readSet"
  by (induction readSet) (simp_all add: readSet_P1_Cons, simp add: readSet_P1_of_def)

lemma readSet_P1_nth:
  "r < length readSet \<Longrightarrow>
   readSet_P1_of readSet ! (2 * r) = readSet ! r \<and> readSet_P1_of readSet ! (2 * r + 1) = readSet ! r"
proof (induction readSet arbitrary: r)
  case Nil
  then show ?case by simp
next
  case (Cons x xs)
  show ?case
  proof (cases r)
    case 0
    then show ?thesis by (simp add: readSet_P1_Cons)
  next
    case (Suc r')
    with Cons.prems have "r' < length xs" by simp
    from Cons.IH [OF this] Suc show ?thesis
      by (simp add: readSet_P1_Cons)
  qed
qed

lemma buffer_ok_fresh: "buffer_ok g (fresh_buffer g)"
  by (simp add: buffer_ok_def fresh_buffer_def)

lemma buffer_ok_of_rows:
  assumes "length M = 2" "length (M ! 0) = numVertices g" "length (M ! 1) = numVertices g"
  shows "buffer_ok g M"
proof -
  from assms(1) obtain a b where "M = [a, b]"
    by (cases M; cases "tl M") auto
  with assms show ?thesis by (simp add: buffer_ok_def)
qed

lemma phase1_read_buffer_ok:
  assumes "topo_in g" "buffer_ok g buf"
  shows "buffer_ok g (matrix (phase1_read g p read buf))"
proof -
  have "p1_mat g p read (length read) 0 (matrix (phase1_read g p read buf))"
    using p1_inv_rows [OF assms(2,1), of p read "length read"]
    by (simp add: p1_inv_def phase1_read_def)
  then show ?thesis
    by (intro buffer_ok_of_rows) (simp_all add: p1_mat_def)
qed

lemma phase1_score_buffer:
  assumes "topo_in g" "buffer_ok g buf"
  shows "bestScore (phase1_read g p read buf) = bestScore (phase1_read g p read (fresh_buffer g))"
  using best_inv_Max [OF phase1_best_inv [OF assms, of p read]]
    best_inv_Max [OF phase1_best_inv [OF assms(1) buffer_ok_fresh, of p read]]
  by simp

lemma p1_scores_step:
  assumes topo: "topo_in g" and inv: "p1_scores g p rs k acc" and k: "k < length rs"
  shows "p1_scores g p rs (Suc k) (phase1_readno g p rs k acc)"
proof -
  let ?st = "phase1_read g p (rs ! k) (fst acc)"
  from inv have buf: "buffer_ok g (fst acc)" and len: "length (snd acc) = length rs"
    and old: "\<forall>i < k. score (snd acc ! i) = bestScore (phase1_read g p (rs ! i) (fresh_buffer g))"
    by (simp_all add: p1_scores_def)
  have "buffer_ok g (matrix ?st)"
    by (rule phase1_read_buffer_ok [OF topo buf])
  moreover have "bestScore ?st = bestScore (phase1_read g p (rs ! k) (fresh_buffer g))"
    by (rule phase1_score_buffer [OF topo buf])
  ultimately show ?thesis
    using old len k
    by (auto simp: p1_scores_def phase1_readno_def Let_def nth_list_update less_Suc_eq)
qed

lemma phase1_scalar_scores:
  assumes topo: "topo_in g" and run: "alignToDAGLocal_Phase1_scalar rs g p bsv = Inr bsv1"
  shows "length bsv1 = length rs"
    and "\<And>i. i < length rs \<Longrightarrow>
           score (bsv1 ! i) = bestScore (phase1_read g p (rs ! i) (fresh_buffer g))"
proof -
  from run have len: "length bsv = length rs"
    and res: "bsv1 = snd (fold (phase1_readno g p rs) [0 ..< length rs]
                       (replicate 2 (replicate (numVertices g) 0), bsv))"
    by (auto simp: alignToDAGLocal_Phase1_scalar_def split: if_splits)
  have "p1_scores g p rs (length rs) (fold (phase1_readno g p rs) [0 ..< length rs]
                       (replicate 2 (replicate (numVertices g) 0), bsv))"
  proof (rule fold_upt_invariant [where P = "p1_scores g p rs"])
    show "p1_scores g p rs 0 (replicate 2 (replicate (numVertices g) 0), bsv)"
      using len buffer_ok_fresh [of g] by (simp add: p1_scores_def fresh_buffer_def)
    show "p1_scores g p rs (Suc k) (phase1_readno g p rs k s)"
      if "k < length rs" "p1_scores g p rs k s" for k s
      using topo that(2,1) by (rule p1_scores_step)
  qed
  then show "length bsv1 = length rs"
    and "\<And>i. i < length rs \<Longrightarrow>
           score (bsv1 ! i) = bestScore (phase1_read g p (rs ! i) (fresh_buffer g))"
    unfolding res by (simp_all add: p1_scores_def)
qed

lemma phase1_rev_read_score:
  "phase1_rev_read g p read info buf = Inr res \<Longrightarrow> score (snd res) = score info"
  by (auto simp: phase1_rev_read_def split: sum.splits if_splits)

lemma scores_kept_step:
  assumes "scores_kept bsv r"
  shows "scores_kept bsv (phase1_rev_readno g p readSet readno r)"
proof (cases r)
  case (Inl e)
  then show ?thesis by (simp add: scores_kept_def phase1_rev_readno_def)
next
  case (Inr acc)
  show ?thesis
  proof (cases "phase1_rev_read g p (readSet ! readno) (snd acc ! readno) (fst acc)")
    case (Inl e)
    with Inr show ?thesis by (simp add: scores_kept_def phase1_rev_readno_def)
  next
    case res: (Inr res)
    from assms Inr have len: "length (snd acc) = length bsv"
      and old: "\<forall>i < length bsv. score (snd acc ! i) = score (bsv ! i)"
      by (simp_all add: scores_kept_def)
    have "score ((snd acc)[readno := snd res] ! i) = score (bsv ! i)" if "i < length bsv" for i
    proof (cases "i = readno")
      case True
      with that len phase1_rev_read_score [OF res] old show ?thesis by simp
    next
      case False
      with that old show ?thesis by simp
    qed
    with len have "length ((snd acc)[readno := snd res]) = length bsv
          \<and> (\<forall>i < length bsv. score ((snd acc)[readno := snd res] ! i) = score (bsv ! i))"
      by simp
    with Inr res show ?thesis
      by (simp add: scores_kept_def phase1_rev_readno_def)
  qed
qed

lemma phase1_rev_scalar_scores:
  assumes "alignToDAGLocal_Phase1_rev_scalar readSet g p bsv = Inr out"
  shows "length out = length bsv" and "\<And>i. i < length bsv \<Longrightarrow> score (out ! i) = score (bsv ! i)"
proof -
  have "scores_kept bsv (fold (phase1_rev_readno g p readSet) [0 ..< length readSet]
                   (Inr (replicate 2 (replicate (numVertices g) 0), bsv)))"
  proof (rule fold_preserves [where P = "scores_kept bsv"])
    show "scores_kept bsv (Inr (replicate 2 (replicate (numVertices g) 0), bsv))"
      by (simp add: scores_kept_def)
  qed (rule scores_kept_step)
  with assms show "length out = length bsv"
    and "\<And>i. i < length bsv \<Longrightarrow> score (out ! i) = score (bsv ! i)"
    by (auto simp: alignToDAGLocal_Phase1_rev_scalar_def scores_kept_def
          split: sum.splits if_splits)
qed

lemma phase2_read_score:
  "phase2_read g p read info = Some (Inr info') \<Longrightarrow> score info' = score info"
  by (auto simp: phase2_read_def Let_def split: option.splits sum.splits if_splits)

lemma phase2_reads_scores:
  "length infos = length reads \<Longrightarrow> phase2_reads g p reads infos = Some (Inr out) \<Longrightarrow>
   length out = length reads \<and> (\<forall>i < length reads. score (out ! i) = score (infos ! i))"
proof (induction reads arbitrary: infos out)
  case Nil
  then show ?case by simp
next
  case (Cons read reads)
  from Cons.prems(1) obtain info rest where infos: "infos = info # rest"
    by (cases infos) auto
  with Cons.prems(1) have rest: "length rest = length reads" by simp
  from Cons.prems(2) infos obtain info' out' where
    r: "phase2_read g p read info = Some (Inr info')"
    and rs: "phase2_reads g p reads rest = Some (Inr out')" and out: "out = info' # out'"
    by (auto split: option.splits sum.splits)
  from Cons.IH [OF rest rs] phase2_read_score [OF r] show ?case
    unfolding out infos by (auto simp: nth_Cons')
qed

lemma select_strand_choice:
  "fst (select_strand rs bsv r) =
     (bsv ! (if score (bsv ! (2 * r)) > score (bsv ! (2 * r + 1)) then 2 * r else 2 * r + 1))
       \<lparr>strand := CHR ''+'', qryId := r\<rparr>"
  by (simp add: select_strand_def)

lemma alignToDAGLocal_scores:
  assumes topo: "topo_in g" and run: "alignToDAGLocal readSet g p = Some (Inr out)"
    and r: "r < length readSet"
  shows "score (out ! r) = bestScore (phase1_read g p (readSet ! r) (fresh_buffer g))"
proof -
  let ?n = "length readSet"
  let ?rs = "readSet_P1_of readSet"
  from run obtain bsv1 out1 where
    p1: "alignToDAGLocal_Phase1_scalar ?rs g p (replicate (2 * ?n) BestScoreInfo_init) = Inr bsv1"
    and rv: "alignToDAGLocal_Phase1_rev_scalar
               (map snd (map (select_strand ?rs bsv1) [0 ..< ?n])) g p
               (map fst (map (select_strand ?rs bsv1) [0 ..< ?n])) = Inr out1"
    and p2: "alignToDAGLocal_Phase2 (map (readSet_P2_of ?rs bsv1) [0 ..< ?n]) g p out1 = Some (Inr out)"
    by (auto simp: alignToDAGLocal_def Let_def split: if_splits sum.splits)
  let ?s = "bestScore (phase1_read g p (readSet ! r) (fresh_buffer g))"
  have i: "2 * r < length ?rs" "2 * r + 1 < length ?rs"
    using r by (simp_all add: readSet_P1_length)
  have "score (bsv1 ! (2 * r)) = ?s" "score (bsv1 ! (2 * r + 1)) = ?s"
    using phase1_scalar_scores(2) [OF topo p1 i(1)] phase1_scalar_scores(2) [OF topo p1 i(2)]
      readSet_P1_nth [OF r]
    by simp_all
  then have sel: "score (fst (select_strand ?rs bsv1 r)) = ?s"
    by (simp add: select_strand_choice)
  have "score (out1 ! r) = score (map fst (map (select_strand ?rs bsv1) [0 ..< ?n]) ! r)"
    using phase1_rev_scalar_scores(2) [OF rv, of r] r by simp
  then have o1: "score (out1 ! r) = ?s"
    using sel r by simp
  have len1: "length out1 = ?n"
    using phase1_rev_scalar_scores(1) [OF rv] by simp
  from p2 have "phase2_reads g p (map (readSet_P2_of ?rs bsv1) [0 ..< ?n]) out1 = Some (Inr out)"
    by (auto simp: alignToDAGLocal_Phase2_def split: if_splits)
  from phase2_reads_scores [OF _ this] len1 r have "score (out ! r) = score (out1 ! r)"
    by simp
  with o1 show ?thesis by simp
qed

text \<open>
  C1. The claim: both the query and its reverse complement go through phase 1, and a
  query that is the reverse complement of a graph path gets strand \<^verbatim>\<open>-\<close> and the score
  of the path. On the chain \<open>ACGTT\<close> the path \<open>ACGTT\<close> scores 5. Its reverse complement
  \<open>AACGT\<close> is aligned as given: score 4, strand \<^verbatim>\<open>+\<close>.
\<close>

theorem reverse_complement_not_aligned_counterexample:
  "alignToDAGLocal [reverseComplement ''ACGTT''] graph_ACGTT unit_scores =
     Some (Inr [\<lparr>score = 4, refColumnStart = 0, refColumnEnd = 3, qryRowStart = 1, qryRowEnd = 4,
                strand = CHR ''+'', qryId = 0, cigar = ''4='', refColumns = [0, 1, 2, 3]\<rparr>])
   \<and> alignToDAGLocal [''ACGTT''] graph_ACGTT unit_scores =
     Some (Inr [\<lparr>score = 5, refColumnStart = 0, refColumnEnd = 4, qryRowStart = 0, qryRowEnd = 4,
                strand = CHR ''+'', qryId = 0, cigar = ''5='', refColumns = [0, 1, 2, 3, 4]\<rparr>])"
  by code_simp

text \<open>
  C1, amended. For every query the engine puts the query itself twice into the reads of
  phase 1; the reverse complement is computed and not aligned. Of the two records of
  phase 1 it keeps the first when its score is strictly higher and the second otherwise,
  and sets the strand to \<^verbatim>\<open>+\<close> in both cases. On a graph whose in-neighbours all have
  smaller ids, a completed run has one record per query, and the record carries strand
  \<^verbatim>\<open>+\<close> and the score phase 1 gives the query as it was written.
\<close>

theorem forward_read_aligned_twice:
  assumes "topo_in g"
  shows "(\<forall>r < length readSet.
            readSet_P1_of readSet ! (2 * r) = readSet ! r
            \<and> readSet_P1_of readSet ! (2 * r + 1) = readSet ! r)
         \<and> (\<forall>rs bsv r.
              fst (select_strand rs bsv r) =
                (bsv ! (if score (bsv ! (2 * r)) > score (bsv ! (2 * r + 1)) then 2 * r else 2 * r + 1))
                  \<lparr>strand := CHR ''+'', qryId := r\<rparr>)
         \<and> (\<forall>out. alignToDAGLocal readSet g p = Some (Inr out) \<longrightarrow>
              length out = length readSet
              \<and> (\<forall>r < length readSet.
                    strand (out ! r) = CHR ''+''
                    \<and> score (out ! r) = bestScore (phase1_read g p (readSet ! r) (fresh_buffer g))))"
proof (intro conjI allI impI)
  show "readSet_P1_of readSet ! (2 * r) = readSet ! r" if "r < length readSet" for r
    using readSet_P1_nth [OF that] by simp
  show "readSet_P1_of readSet ! (2 * r + 1) = readSet ! r" if "r < length readSet" for r
    using readSet_P1_nth [OF that] by simp
  show "fst (select_strand rs bsv r) =
          (bsv ! (if score (bsv ! (2 * r)) > score (bsv ! (2 * r + 1)) then 2 * r else 2 * r + 1))
            \<lparr>strand := CHR ''+'', qryId := r\<rparr>" for rs bsv r
    by (rule select_strand_choice)
next
  fix out
  assume run: "alignToDAGLocal readSet g p = Some (Inr out)"
  let ?n = "length readSet"
  from run obtain bsv1 out1 where
    p1: "alignToDAGLocal_Phase1_scalar (readSet_P1_of readSet) g p
           (replicate (2 * ?n) BestScoreInfo_init) = Inr bsv1"
    and rv: "alignToDAGLocal_Phase1_rev_scalar
               (map snd (map (select_strand (readSet_P1_of readSet) bsv1) [0 ..< ?n])) g p
               (map fst (map (select_strand (readSet_P1_of readSet) bsv1) [0 ..< ?n])) = Inr out1"
    and p2: "alignToDAGLocal_Phase2
               (map (readSet_P2_of (readSet_P1_of readSet) bsv1) [0 ..< ?n]) g p out1 = Some (Inr out)"
    by (auto simp: alignToDAGLocal_def Let_def split: if_splits sum.splits)
  have "plus_strands ?n (map fst (map (select_strand (readSet_P1_of readSet) bsv1) [0 ..< ?n]))"
    by (auto simp: plus_strands_def select_strand_plus)
  then have "plus_strands ?n out1"
    using rv by (rule phase1_rev_scalar_strands)
  then have plus: "plus_strands ?n out"
    using p2 phase2_reads_strands [of "map (readSet_P2_of (readSet_P1_of readSet) bsv1) [0 ..< ?n]" out1 g p out]
    by (auto simp: alignToDAGLocal_Phase2_def split: if_splits)
  then show "length out = length readSet"
    by (simp add: plus_strands_def)
  show "strand (out ! r) = CHR ''+''" if "r < length readSet" for r
    using plus that by (simp add: plus_strands_def)
  show "score (out ! r) = bestScore (phase1_read g p (readSet ! r) (fresh_buffer g))"
    if "r < length readSet" for r
    using assms run that by (rule alignToDAGLocal_scores)
qed

text \<open>
  The reverse complement of the path \<open>ACGTT\<close> is aligned as the string \<open>AACGT\<close>: strand
  \<^verbatim>\<open>+\<close> and the score 4 of that string.
\<close>

theorem forward_read_aligned_twice_witness:
  "topo_in graph_ACGTT
   \<and> readSet_P1_of [reverseComplement ''ACGTT''] = [''AACGT'', ''AACGT'']
   \<and> (\<exists>out. alignToDAGLocal [reverseComplement ''ACGTT''] graph_ACGTT unit_scores = Some (Inr out)
         \<and> length out = 1 \<and> strand (out ! 0) = CHR ''+''
         \<and> score (out ! 0)
             = bestScore (phase1_read graph_ACGTT unit_scores ''AACGT'' (fresh_buffer graph_ACGTT)))
   \<and> bestScore (phase1_read graph_ACGTT unit_scores ''AACGT'' (fresh_buffer graph_ACGTT)) = 4"
proof -
  have topo: "topo_in graph_ACGTT" by code_simp
  have rc: "reverseComplement ''ACGTT'' = ''AACGT''" by code_simp
  have p1: "readSet_P1_of [''AACGT''] = [''AACGT'', ''AACGT'']" by code_simp
  have bs: "bestScore (phase1_read graph_ACGTT unit_scores ''AACGT'' (fresh_buffer graph_ACGTT)) = 4"
    by code_simp
  have run: "alignToDAGLocal [''AACGT''] graph_ACGTT unit_scores =
     Some (Inr [\<lparr>score = 4, refColumnStart = 0, refColumnEnd = 3, qryRowStart = 1, qryRowEnd = 4,
                strand = CHR ''+'', qryId = 0, cigar = ''4='', refColumns = [0, 1, 2, 3]\<rparr>])"
    by code_simp
  from forward_read_aligned_twice [OF topo, of "[''AACGT'']" unit_scores] run
  have "\<exists>out. alignToDAGLocal [''AACGT''] graph_ACGTT unit_scores = Some (Inr out)
         \<and> length out = 1 \<and> strand (out ! 0) = CHR ''+''
         \<and> score (out ! 0)
             = bestScore (phase1_read graph_ACGTT unit_scores ''AACGT'' (fresh_buffer graph_ACGTT))"
    by simp
  with topo p1 bs show ?thesis
    unfolding rc by blast
qed

section \<open>The reverse sweep on a one-cell alignment\<close>

text \<open>
  C3. The claim: the reverse sweep finds \<open>match\<close> at the cell that mirrors the forward end
  cell, and its best score is the forward best score plus one, as the code asserts. On
  the graph \<open>A\<close> with the read \<open>A\<close> the forward sweep reports score 1 ending at cell
  (0, 0). The reverse sweep computes 1 at that cell and records it as its best score;
  the cell is raised to 2 only afterwards, and no later cell reads it. The best score of
  the reverse sweep is therefore 1, not 2, and the assertion on the two scores fails.
\<close>

theorem reverse_sweep_single_match_fails:
  "alignToDAGLocal_Phase1_scalar [''A''] graph_A unit_scores [BestScoreInfo_init]
     = Inr [BestScoreInfo_init\<lparr>score := 1, refColumnEnd := 0, qryRowEnd := 0\<rparr>]
   \<and> phase1_rev_rows graph_A unit_scores (reverse ''A'')
         (BestScoreInfo_init\<lparr>score := 1, refColumnEnd := 0, qryRowEnd := 0\<rparr>)
         [[0], [0]] 1
     = Inr \<lparr>matrix = [[2], [0]], bestScore = 1, bestRow = 0, bestCol = 0\<rparr>
   \<and> alignToDAGLocal_Phase1_rev_scalar [reverse ''A''] graph_A unit_scores
         [BestScoreInfo_init\<lparr>score := 1, refColumnEnd := 0, qryRowEnd := 0\<rparr>]
     = Inl (AssertionFailed ReverseScoreOffByOne)"
  by code_simp

section \<open>A read with best score zero\<close>

text \<open>
  C8. The claim: a read whose best local alignment score is zero yields a record with
  score 0 and an empty CIGAR string. On the graph \<open>A\<close> the read \<open>C\<close> has best score 0;
  the reverse sweep computes 0 at the mirror cell, where the code asserts \<open>match\<close>, and
  the run stops there. Phase 2 alone, given the record of that read, returns score 0 and
  the empty CIGAR string.
\<close>

theorem zero_score_read_aborts:
  "alignToDAGLocal_Phase1_scalar [''C''] graph_A unit_scores [BestScoreInfo_init]
     = Inr [BestScoreInfo_init\<lparr>score := 0, refColumnEnd := 0, qryRowEnd := 0\<rparr>]
   \<and> alignToDAGLocal [''C''] graph_A unit_scores = Some (Inl (AssertionFailed MirrorCellIsMatch))
   \<and> phase2_read graph_A unit_scores ''C'' BestScoreInfo_init
     = Some (Inr (BestScoreInfo_init\<lparr>cigar := [], refColumns := [0]\<rparr>))"
  by code_simp

section \<open>Rectangles without rows or columns\<close>

text \<open>
  A record whose first row is one past its last row has \<open>reducedHeight = 0\<close>: phase 2
  skips both loops and stores an empty CIGAR string and an empty column list. A first
  row two past the last row, or a first column past the last column, stops the run.
\<close>

lemma phase2_empty_rectangle:
  "phase2_read graph_A unit_scores ''A'' (BestScoreInfo_init\<lparr>qryRowStart := 1\<rparr>)
     = Some (Inr (BestScoreInfo_init\<lparr>qryRowStart := 1, cigar := [], refColumns := []\<rparr>))
   \<and> phase2_read graph_A unit_scores ''A'' (BestScoreInfo_init\<lparr>qryRowStart := 2\<rparr>)
     = Some (Inl OutOfRange)
   \<and> phase2_read graph_A unit_scores ''A'' (BestScoreInfo_init\<lparr>refColumnStart := 1\<rparr>)
     = Some (Inl OutOfRange)"
  by code_simp

end
